theory Spec2Isabelle
  imports Main "HOL-Library.Char_ord"
begin

section \<open>Strings\<close>

text \<open>
  Source strings are modelled as \<^typ>\<open>string\<close>: lists of code units below 256.  The helpers
  below are the JavaScript string operations the two source files use.
\<close>

text \<open>\<^verbatim>\<open>s.split('\n')\<close>: the pieces between line feeds; always at least one piece.\<close>

fun split_from :: "string \<Rightarrow> string \<Rightarrow> string list" where
  "split_from cur [] = [rev cur]"
| "split_from cur (c # cs) =
     (if c = CHR 0x0A then rev cur # split_from [] cs else split_from (c # cur) cs)"

definition split_nl :: "string \<Rightarrow> string list" where
  "split_nl s = split_from [] s"

text \<open>\<^verbatim>\<open>s.startsWith(p)\<close>, \<^verbatim>\<open>s.includes(p)\<close>, \<^verbatim>\<open>s.endsWith(p)\<close>.\<close>

fun starts_with :: "string \<Rightarrow> string \<Rightarrow> bool" where
  "starts_with [] s = True"
| "starts_with (p # ps) [] = False"
| "starts_with (p # ps) (c # cs) = (p = c \<and> starts_with ps cs)"

fun includes_str :: "string \<Rightarrow> string \<Rightarrow> bool" where
  "includes_str p [] = (p = [])"
| "includes_str p (c # cs) = (starts_with p (c # cs) \<or> includes_str p cs)"

definition ends_with :: "string \<Rightarrow> string \<Rightarrow> bool" where
  "ends_with p s = starts_with (rev p) (rev s)"

text \<open>
  \<^verbatim>\<open>s.replace(p, r)\<close> with a string pattern: only the first occurrence is replaced.  (None of
  the replacement strings of the source contains a \<^verbatim>\<open>$\<close>, so they are inserted literally.)
\<close>

fun replace_first :: "string \<Rightarrow> string \<Rightarrow> string \<Rightarrow> string" where
  "replace_first p r [] = (if p = [] then r else [])"
| "replace_first p r (c # cs) =
     (if starts_with p (c # cs) then r @ drop (length p) (c # cs)
      else c # replace_first p r cs)"

text \<open>
  White space as \<^verbatim>\<open>\s\<close> and \<^verbatim>\<open>trim()\<close> see it, restricted to code units below 256: tab, line
  feed, vertical tab, form feed, carriage return, space and no-break space.
\<close>

definition is_space :: "char \<Rightarrow> bool" where
  "is_space c = (c \<in> set [CHR 0x09, CHR 0x0A, CHR 0x0B, CHR 0x0C, CHR 0x0D, CHR 0x20, CHR 0xA0])"

definition trim :: "string \<Rightarrow> string" where
  "trim s = rev (dropWhile is_space (rev (dropWhile is_space s)))"

section \<open>Regular expressions\<close>

text \<open>
  The patterns of the source are written in the syntax tree below and run by a backtracking
  matcher that returns the match states in the order in which a backtracking engine tries
  them; the first one is the match.
\<close>

datatype cclass = CNotGt | CSpace | CDotAll | CNotQuote | CQuote | CDigit16

definition is_word_char :: "char \<Rightarrow> bool" where
  "is_word_char c =
     ((CHR ''a'' \<le> c \<and> c \<le> CHR ''z'') \<or> (CHR ''A'' \<le> c \<and> c \<le> CHR ''Z'')
      \<or> (CHR ''0'' \<le> c \<and> c \<le> CHR ''9'') \<or> c = CHR ''_'')"

text \<open>
  \<open>CNotGt\<close> is \<^verbatim>\<open>[^>]\<close>, \<open>CSpace\<close> is \<^verbatim>\<open>\s\<close>, \<open>CDotAll\<close> is \<^verbatim>\<open>.\<close> under the \<^verbatim>\<open>s\<close> flag,
  \<open>CNotQuote\<close> is \<^verbatim>\<open>[^"']\<close>, \<open>CQuote\<close> is \<^verbatim>\<open>["']\<close>, \<open>CDigit16\<close> is \<^verbatim>\<open>[1-6]\<close>.  None of them
  depends on letter case.
\<close>

fun in_class :: "cclass \<Rightarrow> char \<Rightarrow> bool" where
  "in_class CNotGt c = (c \<noteq> CHR ''>'')"
| "in_class CSpace c = is_space c"
| "in_class CDotAll c = True"
| "in_class CNotQuote c = (c \<noteq> CHR 0x22 \<and> c \<noteq> CHR 0x27)"
| "in_class CQuote c = (c = CHR 0x22 \<or> c = CHR 0x27)"
| "in_class CDigit16 c = (CHR ''1'' \<le> c \<and> c \<le> CHR ''6'')"

text \<open>
  Under the \<^verbatim>\<open>i\<close> flag both characters are canonicalised (upper-cased) before they are
  compared.  The literals of the patterns are ASCII, and a code unit from 128 on never
  canonicalises to an ASCII one, so upper-casing \<open>a..z\<close> (clearing bit 5) is all there is.
\<close>

definition canonicalize :: "char \<Rightarrow> char" where
  "canonicalize c =
     (if CHR ''a'' \<le> c \<and> c \<le> CHR ''z''
      then (case c of Char b0 b1 b2 b3 b4 b5 b6 b7 \<Rightarrow> Char b0 b1 b2 b3 b4 False b6 b7)
      else c)"

definition char_matches :: "bool \<Rightarrow> char \<Rightarrow> char \<Rightarrow> bool" where
  "char_matches ignoreCase p c = (if ignoreCase then canonicalize p = canonicalize c else p = c)"

text \<open>
  \<open>Lit\<close> a literal text, \<open>One k\<close> one character of a class, \<open>Many k\<close> the greedy \<^verbatim>\<open>k*\<close>,
  \<open>ManyLazy k\<close> the lazy \<^verbatim>\<open>k*?\<close>, \<open>Rep r\<close> the greedy \<^verbatim>\<open>(?:r)*\<close>, \<open>Seq\<close> concatenation, \<open>Alt\<close>
  the alternative \<^verbatim>\<open>r1|r2\<close>, \<open>NotAhead r\<close> the negative lookahead \<^verbatim>\<open>(?!r)\<close>, \<open>WordB\<close> the word
  boundary \<^verbatim>\<open>\b\<close>, \<open>Group r\<close> the capture group \<^verbatim>\<open>(r)\<close> (every pattern has at most one).
\<close>

datatype re = Lit string | One cclass | Many cclass | ManyLazy cclass | Rep re
  | Seq re re | Alt re re | NotAhead re | WordB | Group re

text \<open>
  A match state: the character before the current position, the text from the current
  position on, the number of characters consumed since the start of the match, and the text
  of the capture group.
\<close>

type_synonym mstate = "char option \<times> string \<times> nat \<times> string"

fun match_lit :: "bool \<Rightarrow> string \<Rightarrow> mstate \<Rightarrow> mstate list" where
  "match_lit ic [] st = [st]"
| "match_lit ic (p # ps) (prev, [], n, g) = []"
| "match_lit ic (p # ps) (prev, c # cs, n, g) =
     (if char_matches ic p c then match_lit ic ps (Some c, cs, Suc n, g) else [])"

fun match_one :: "cclass \<Rightarrow> mstate \<Rightarrow> mstate list" where
  "match_one k (prev, [], n, g) = []"
| "match_one k (prev, c # cs, n, g) = (if in_class k c then [(Some c, cs, Suc n, g)] else [])"

fun match_many :: "cclass \<Rightarrow> mstate \<Rightarrow> mstate list" where
  "match_many k (prev, [], n, g) = [(prev, [], n, g)]"
| "match_many k (prev, c # cs, n, g) =
     (if in_class k c then match_many k (Some c, cs, Suc n, g) @ [(prev, c # cs, n, g)]
      else [(prev, c # cs, n, g)])"

fun match_many_lazy :: "cclass \<Rightarrow> mstate \<Rightarrow> mstate list" where
  "match_many_lazy k (prev, [], n, g) = [(prev, [], n, g)]"
| "match_many_lazy k (prev, c # cs, n, g) =
     (if in_class k c then (prev, c # cs, n, g) # match_many_lazy k (Some c, cs, Suc n, g)
      else [(prev, c # cs, n, g)])"

definition at_word_boundary :: "mstate \<Rightarrow> bool" where
  "at_word_boundary st =
     (case st of (prev, cs, n, g) \<Rightarrow>
        (case prev of None \<Rightarrow> False | Some a \<Rightarrow> is_word_char a)
          \<noteq> (case cs of [] \<Rightarrow> False | b # _ \<Rightarrow> is_word_char b))"

definition set_group :: "mstate \<Rightarrow> mstate \<Rightarrow> mstate" where
  "set_group st st' =
     (case st of (prev, cs, n, g) \<Rightarrow>
        (case st' of (prev', cs', n', g') \<Rightarrow> (prev', cs', n', take (n' - n) cs)))"

definition rest_len :: "mstate \<Rightarrow> nat" where
  "rest_len st = (case st of (prev, cs, n, g) \<Rightarrow> length cs)"

text \<open>
  \<open>ms ic r st\<close>: the states after a match of \<open>r\<close> from \<open>st\<close>, in backtracking order; \<open>ic\<close> is
  the \<^verbatim>\<open>i\<close> flag.  An iteration of \<open>Rep\<close> that consumes nothing is not continued.
\<close>

function (sequential) ms :: "bool \<Rightarrow> re \<Rightarrow> mstate \<Rightarrow> mstate list" where
  "ms ic (Lit ps) st = match_lit ic ps st"
| "ms ic (One k) st = match_one k st"
| "ms ic (Many k) st = match_many k st"
| "ms ic (ManyLazy k) st = match_many_lazy k st"
| "ms ic (Rep r) st =
     concat (map (\<lambda>st'. if rest_len st' < rest_len st then ms ic (Rep r) st' else []) (ms ic r st))
       @ [st]"
| "ms ic (Seq r1 r2) st = concat (map (ms ic r2) (ms ic r1 st))"
| "ms ic (Alt r1 r2) st = ms ic r1 st @ ms ic r2 st"
| "ms ic (NotAhead r) st = (if ms ic r st = [] then [st] else [])"
| "ms ic WordB st = (if at_word_boundary st then [st] else [])"
| "ms ic (Group r) st = map (set_group st) (ms ic r st)"
  by pat_completeness auto
termination
  by (relation "measures [\<lambda>(ic, r, st). size r, \<lambda>(ic, r, st). rest_len st]") auto

fun seqs :: "re list \<Rightarrow> re" where
  "seqs [] = Lit []"
| "seqs [r] = r"
| "seqs (r # rs) = Seq r (seqs rs)"

text \<open>
  One match attempt at a position of the subject: the matched text and the text of the
  capture group, or \<open>None\<close>.
\<close>

definition exec_at :: "bool \<Rightarrow> re \<Rightarrow> char option \<Rightarrow> string \<Rightarrow> (string \<times> string) option" where
  "exec_at ic r prev s =
     (case ms ic r (prev, s, 0, []) of
        [] \<Rightarrow> None
      | (prev', cs', n, g) # _ \<Rightarrow> Some (take n s, g))"

text \<open>\<^verbatim>\<open>re.test(s)\<close>: is there a match at some position of \<open>s\<close>?\<close>

fun test_scan :: "bool \<Rightarrow> re \<Rightarrow> char option \<Rightarrow> string \<Rightarrow> bool" where
  "test_scan ic r prev [] = (exec_at ic r prev [] \<noteq> None)"
| "test_scan ic r prev (c # cs) = (exec_at ic r prev (c # cs) \<noteq> None \<or> test_scan ic r (Some c) cs)"

definition re_test :: "bool \<Rightarrow> re \<Rightarrow> string \<Rightarrow> bool" where
  "re_test ic r s = test_scan ic r None s"

text \<open>
  \<^verbatim>\<open>s.replace(re, callback)\<close> with a global pattern: the text is scanned from the left, the
  leftmost match from the current position on is replaced by what the callback returns for
  (match, group 1, offset), and the scan goes on behind the match (one character further
  after an empty match).  \<open>skip\<close> counts the characters of the last match still to be passed
  over.  The callbacks of the source push fix records on a shared array: here a callback
  returns the records it pushes, and the scan returns all of them in the order of the calls.
\<close>

fun replace_scan :: "bool \<Rightarrow> re \<Rightarrow> (string \<Rightarrow> string \<Rightarrow> nat \<Rightarrow> string \<times> 'f list)
    \<Rightarrow> nat \<Rightarrow> nat \<Rightarrow> char option \<Rightarrow> string \<Rightarrow> string \<times> 'f list" where
  "replace_scan ic r cb skip off prev [] =
     (if skip = 0 then
        (case exec_at ic r prev [] of None \<Rightarrow> ([], []) | Some (m, g) \<Rightarrow> cb m g off)
      else ([], []))"
| "replace_scan ic r cb skip off prev (c # cs) =
     (if skip = 0 then
        (case exec_at ic r prev (c # cs) of
           None \<Rightarrow>
             (case replace_scan ic r cb 0 (Suc off) (Some c) cs of (out, fs) \<Rightarrow> (c # out, fs))
         | Some (m, g) \<Rightarrow>
             (case cb m g off of (rep, fs1) \<Rightarrow>
                (if m = [] then
                   (case replace_scan ic r cb 0 (Suc off) (Some c) cs of
                      (out, fs2) \<Rightarrow> (rep @ c # out, fs1 @ fs2))
                 else
                   (case replace_scan ic r cb (length m - 1) (Suc off) (Some c) cs of
                      (out, fs2) \<Rightarrow> (rep @ out, fs1 @ fs2)))))
      else replace_scan ic r cb (skip - 1) (Suc off) (Some c) cs)"

definition replace_all :: "bool \<Rightarrow> re \<Rightarrow> (string \<Rightarrow> string \<Rightarrow> nat \<Rightarrow> string \<times> 'f list)
    \<Rightarrow> string \<Rightarrow> string \<times> 'f list" where
  "replace_all ic r cb s = replace_scan ic r cb 0 0 None s"

text \<open>\<^verbatim>\<open>s.match(re)\<close> with a global pattern: all the matches, from the left.\<close>

definition match_all :: "bool \<Rightarrow> re \<Rightarrow> string \<Rightarrow> string list" where
  "match_all ic r s = snd (replace_all ic r (\<lambda>m g off. (m, [m])) s)"

section \<open>The rule engine (\<^verbatim>\<open>fixAccessibility\<close>, accessibility-fixer.ts)\<close>

datatype Category = Images | InteractiveElements | Forms | Navigation
  | Semantics | ARIA | KeyboardNavigation

record AccessibilityFix =
  category :: Category
  action :: string
  selector :: string
  summary :: string
  line :: "nat option"

text \<open>
  The result of a run; \<open>'f\<close> is the type of the fix records (the two source files declare
  the same result shape over their own fix interface).
\<close>

record 'f FixResult =
  code :: string
  "fixes" :: "'f list"
  hasChanges :: bool

definition lineOffset :: nat where
  "lineOffset = 0"

definition getLineNumber :: "string \<Rightarrow> nat \<Rightarrow> nat" where
  "getLineNumber sourceCode index = length (split_nl (take index sourceCode)) + lineOffset"

text \<open>\<^verbatim>\<open>/<img(?![^>]*\balt\s*=)([^>]*?)>/gi\<close>\<close>

definition img_re :: re where
  "img_re = seqs [Lit ''<img'',
     NotAhead (seqs [Many CNotGt, WordB, Lit ''alt'', Many CSpace, Lit ''='']),
     Group (ManyLazy CNotGt), Lit ''>'']"

text \<open>\<^verbatim>\<open>/<button(?![^>]*\baria-label\s*=)([^>]*?)>\s*<svg[^>]*>.*?<\/svg>\s*<\/button>/gis\<close>\<close>

definition button_re :: re where
  "button_re = seqs [Lit ''<button'',
     NotAhead (seqs [Many CNotGt, WordB, Lit ''aria-label'', Many CSpace, Lit ''='']),
     Group (ManyLazy CNotGt), Lit ''>'', Many CSpace, Lit ''<svg'', Many CNotGt, Lit ''>'',
     ManyLazy CDotAll, Lit ''</svg>'', Many CSpace, Lit ''</button>'']"

text \<open>\<^verbatim>\<open>/<a(?![^>]*\baria-label\s*=)([^>]*?)>\s*(?:<[^>]*>)*\s*<\/a>/gi\<close>\<close>

definition link_re :: re where
  "link_re = seqs [Lit ''<a'',
     NotAhead (seqs [Many CNotGt, WordB, Lit ''aria-label'', Many CSpace, Lit ''='']),
     Group (ManyLazy CNotGt), Lit ''>'', Many CSpace,
     Rep (seqs [Lit ''<'', Many CNotGt, Lit ''>'']), Many CSpace, Lit ''</a>'']"

text \<open>\<^verbatim>\<open>/<[^>]*>/g\<close>\<close>

definition tag_re :: re where
  "tag_re = seqs [Lit ''<'', Many CNotGt, Lit ''>'']"

text \<open>\<^verbatim>\<open>/<div(?![^>]*\brole\s*=)([^>]*?)onClick\s*=\s*[^>]*?>/gi\<close>\<close>

definition div_re :: re where
  "div_re = seqs [Lit ''<div'',
     NotAhead (seqs [Many CNotGt, WordB, Lit ''role'', Many CSpace, Lit ''='']),
     Group (ManyLazy CNotGt), Lit ''onClick'', Many CSpace, Lit ''='', Many CSpace,
     ManyLazy CNotGt, Lit ''>'']"

text \<open>\<^verbatim>\<open>/<input(?![^>]*\b(?:aria-label|id)\s*=)([^>]*?)(?:\s*\/>|>\s*<\/input>)/gi\<close>\<close>

definition input_re :: re where
  "input_re = seqs [Lit ''<input'',
     NotAhead (seqs [Many CNotGt, WordB, Alt (Lit ''aria-label'') (Lit ''id''),
       Many CSpace, Lit ''='']),
     Group (ManyLazy CNotGt),
     Alt (seqs [Many CSpace, Lit ''/>'']) (seqs [Lit ''>'', Many CSpace, Lit ''</input>''])]"

text \<open>\<^verbatim>\<open>/<label[^>]*\bfor\s*=\s*["'][^"']*["']/\<close> (no flag: case-sensitive)\<close>

definition label_re :: re where
  "label_re = seqs [Lit ''<label'', Many CNotGt, WordB, Lit ''for'', Many CSpace, Lit ''='',
     Many CSpace, One CQuote, Many CNotQuote, One CQuote]"

definition hasAssociatedLabel :: "string \<Rightarrow> bool" where
  "hasAssociatedLabel sourceCode = re_test False label_re sourceCode"

text \<open>The five callbacks: the replacement text and the fix records pushed.\<close>

definition fix_img :: "string \<Rightarrow> string \<Rightarrow> string \<Rightarrow> nat \<Rightarrow> string \<times> AccessibilityFix list" where
  "fix_img sourceCode match attrs offset =
     (''<img'' @ attrs @ '' alt=\"\">'',
      [\<lparr>category = Images, action = ''Added alt attribute'',
        selector = ''img'' @ (if includes_str ''src'' attrs then ''[src]'' else []),
        summary = ''Added empty alt attribute for decorative image'',
        line = Some (getLineNumber sourceCode offset)\<rparr>])"

definition fix_button :: "string \<Rightarrow> string \<Rightarrow> string \<Rightarrow> nat \<Rightarrow> string \<times> AccessibilityFix list" where
  "fix_button sourceCode match attrs offset =
     (replace_first ''<button'' ''<button aria-label=\"Button\"'' match,
      [\<lparr>category = InteractiveElements, action = ''Added aria-label'',
        selector = ''button > svg'',
        summary = ''Added aria-label for button with only SVG content'',
        line = Some (getLineNumber sourceCode offset)\<rparr>])"

definition textContent :: "string \<Rightarrow> string" where
  "textContent match = trim (fst (replace_all False tag_re (\<lambda>m g off. ([], ([] :: unit list))) match))"

definition fix_link :: "string \<Rightarrow> string \<Rightarrow> string \<Rightarrow> nat \<Rightarrow> string \<times> AccessibilityFix list" where
  "fix_link sourceCode match attrs offset =
     (if textContent match = [] then
        (replace_first ''<a'' ''<a aria-label=\"Link\"'' match,
         [\<lparr>category = Navigation, action = ''Added aria-label'',
           selector = ''a[href]'',
           summary = ''Added aria-label for link without text content'',
           line = Some (getLineNumber sourceCode offset)\<rparr>])
      else (match, []))"

definition div_replacement :: "string \<Rightarrow> string" where
  "div_replacement match =
     (let replacement = match;
          replacement = (if \<not> includes_str ''role='' replacement
                         then replace_first ''<div'' ''<div role=\"button\"'' replacement
                         else replacement);
          replacement = (if \<not> includes_str ''tabIndex'' replacement
                         then replace_first ''<div'' ''<div tabIndex={0}'' replacement
                         else replacement)
      in replacement)"

definition fix_div :: "string \<Rightarrow> string \<Rightarrow> string \<Rightarrow> nat \<Rightarrow> string \<times> AccessibilityFix list" where
  "fix_div sourceCode match beforeOnClick offset =
     (div_replacement match,
      [\<lparr>category = InteractiveElements, action = ''Added role and tabIndex'',
        selector = ''div[onClick]'',
        summary = ''Made clickable div keyboard accessible'',
        line = Some (getLineNumber sourceCode offset)\<rparr>])"

definition label_input :: "string \<Rightarrow> string" where
  "label_input match =
     (if ends_with ''/>'' match
      then replace_first ''/>'' '' aria-label=\"Input\" />'' match
      else replace_first ''>'' '' aria-label=\"Input\">'' match)"

definition fix_input :: "string \<Rightarrow> string \<Rightarrow> string \<Rightarrow> nat \<Rightarrow> string \<times> AccessibilityFix list" where
  "fix_input sourceCode match attrs offset =
     (if \<not> hasAssociatedLabel sourceCode then
        (label_input match,
         [\<lparr>category = Forms, action = ''Added aria-label'',
           selector = ''input'',
           summary = ''Added aria-label for input without associated label'',
           line = Some (getLineNumber sourceCode offset)\<rparr>])
      else (match, []))"

text \<open>The five passes (``Fix 1'' to ``Fix 5''), each a global replace on the current text.\<close>

definition rule_img :: "string \<Rightarrow> string \<Rightarrow> string \<times> AccessibilityFix list" where
  "rule_img sourceCode text = replace_all True img_re (fix_img sourceCode) text"

definition rule_button :: "string \<Rightarrow> string \<Rightarrow> string \<times> AccessibilityFix list" where
  "rule_button sourceCode text = replace_all True button_re (fix_button sourceCode) text"

definition rule_link :: "string \<Rightarrow> string \<Rightarrow> string \<times> AccessibilityFix list" where
  "rule_link sourceCode text = replace_all True link_re (fix_link sourceCode) text"

definition rule_div :: "string \<Rightarrow> string \<Rightarrow> string \<times> AccessibilityFix list" where
  "rule_div sourceCode text = replace_all True div_re (fix_div sourceCode) text"

definition rule_input :: "string \<Rightarrow> string \<Rightarrow> string \<times> AccessibilityFix list" where
  "rule_input sourceCode text = replace_all True input_re (fix_input sourceCode) text"

text \<open>
  \<^verbatim>\<open>fixAccessibility\<close>: the five passes in order, each on the text the pass before left, all
  pushing on the same array of fixes; the text is trimmed at the end.
\<close>

definition fixAccessibility :: "string \<Rightarrow> AccessibilityFix FixResult" where
  "fixAccessibility sourceCode =
     (case rule_img sourceCode sourceCode of (code1, fixes1) \<Rightarrow>
      case rule_button sourceCode code1 of (code2, fixes2) \<Rightarrow>
      case rule_link sourceCode code2 of (code3, fixes3) \<Rightarrow>
      case rule_div sourceCode code3 of (code4, fixes4) \<Rightarrow>
      case rule_input sourceCode code4 of (code5, fixes5) \<Rightarrow>
        \<lparr>code = trim code5,
         fixes = fixes1 @ fixes2 @ fixes3 @ fixes4 @ fixes5,
         hasChanges = (length (fixes1 @ fixes2 @ fixes3 @ fixes4 @ fixes5) > 0)\<rparr>)"

text \<open>The texts the second to fifth passes scan.\<close>

definition text_before_buttons :: "string \<Rightarrow> string" where
  "text_before_buttons sourceCode = fst (rule_img sourceCode sourceCode)"

definition text_before_links :: "string \<Rightarrow> string" where
  "text_before_links sourceCode = fst (rule_button sourceCode (text_before_buttons sourceCode))"

definition text_before_divs :: "string \<Rightarrow> string" where
  "text_before_divs sourceCode = fst (rule_link sourceCode (text_before_links sourceCode))"

definition text_before_inputs :: "string \<Rightarrow> string" where
  "text_before_inputs sourceCode = fst (rule_div sourceCode (text_before_divs sourceCode))"

text \<open>The statement that none of the five patterns matches a text.\<close>

definition no_rule_matches :: "string \<Rightarrow> bool" where
  "no_rule_matches text =
     (\<not> re_test True img_re text \<and> \<not> re_test True button_re text \<and> \<not> re_test True link_re text
      \<and> \<not> re_test True div_re text \<and> \<not> re_test True input_re text)"

text \<open>
  The occurrences of a pattern that a global replace finds in a text, from the left: the
  match, group 1 and the offset of the match in that text (the three arguments the callback
  is called with).  \<open>char_before t off\<close> is the character of \<open>t\<close> just before offset \<open>off\<close>.
\<close>

definition occurrences :: "bool \<Rightarrow> re \<Rightarrow> string \<Rightarrow> (string \<times> string \<times> nat) list" where
  "occurrences ic r t = snd (replace_all ic r (\<lambda>m g off. (m, [(m, g, off)])) t)"

definition char_before :: "string \<Rightarrow> nat \<Rightarrow> char option" where
  "char_before t off = (if off = 0 then None else Some (t ! (off - 1)))"

text \<open>
  The offsets of the matches for which a run records a fix, in the order of the records: all
  the occurrences of the image, button and container patterns, the occurrences of the link
  pattern without text content, and the occurrences of the input pattern unless the original
  text has a label; each in the text its pass scans.
\<close>

definition fix_offsets :: "string \<Rightarrow> nat list" where
  "fix_offsets sourceCode =
     map (\<lambda>(m, g, off). off) (occurrences True img_re sourceCode)
     @ map (\<lambda>(m, g, off). off) (occurrences True button_re (text_before_buttons sourceCode))
     @ map (\<lambda>(m, g, off). off)
         (filter (\<lambda>(m, g, off). textContent m = [])
            (occurrences True link_re (text_before_links sourceCode)))
     @ map (\<lambda>(m, g, off). off) (occurrences True div_re (text_before_divs sourceCode))
     @ (if hasAssociatedLabel sourceCode then []
        else map (\<lambda>(m, g, off). off) (occurrences True input_re (text_before_inputs sourceCode)))"

section \<open>The AI service (\<^verbatim>\<open>AIAccessibilityService\<close>, ai-accessibility-fixer.ts)\<close>

text \<open>
  The fix interface of this file adds two optional fields.  The confidence constants of the
  source (0.95, 0.9, ...) are kept in hundredths.
\<close>

record AIAccessibilityFix = AccessibilityFix +
  confidence :: "nat option"
  explanation :: "string option"

datatype Language = JSX | HTML | TSX

text \<open>\<^verbatim>\<open>/(?:decorative|background|spacer|divider)/i\<close>\<close>

definition decorative_re :: re where
  "decorative_re =
     Alt (Lit ''decorative'') (Alt (Lit ''background'') (Alt (Lit ''spacer'') (Lit ''divider'')))"

text \<open>\<^verbatim>\<open>/<button(?![^>]*\b(?:aria-label|aria-labelledby)\s*=)([^>]*?)>\s*<svg[^>]*>.*?<\/svg>\s*<\/button>/gis\<close>\<close>

definition ai_button_re :: re where
  "ai_button_re = seqs [Lit ''<button'',
     NotAhead (seqs [Many CNotGt, WordB, Alt (Lit ''aria-label'') (Lit ''aria-labelledby''),
       Many CSpace, Lit ''='']),
     Group (ManyLazy CNotGt), Lit ''>'', Many CSpace, Lit ''<svg'', Many CNotGt, Lit ''>'',
     ManyLazy CDotAll, Lit ''</svg>'', Many CSpace, Lit ''</button>'']"

text \<open>\<^verbatim>\<open>/<a(?![^>]*\b(?:aria-label|aria-labelledby)\s*=)([^>]*?)>\s*(?:<[^>]*>)*\s*<\/a>/gi\<close>\<close>

definition ai_link_re :: re where
  "ai_link_re = seqs [Lit ''<a'',
     NotAhead (seqs [Many CNotGt, WordB, Alt (Lit ''aria-label'') (Lit ''aria-labelledby''),
       Many CSpace, Lit ''='']),
     Group (ManyLazy CNotGt), Lit ''>'', Many CSpace,
     Rep (seqs [Lit ''<'', Many CNotGt, Lit ''>'']), Many CSpace, Lit ''</a>'']"

text \<open>\<^verbatim>\<open>/<input(?![^>]*\b(?:aria-label|id|aria-labelledby)\s*=)([^>]*?)(?:\s*\/>|>\s*<\/input>)/gi\<close>\<close>

definition ai_input_re :: re where
  "ai_input_re = seqs [Lit ''<input'',
     NotAhead (seqs [Many CNotGt, WordB,
       Alt (Lit ''aria-label'') (Alt (Lit ''id'') (Lit ''aria-labelledby'')),
       Many CSpace, Lit ''='']),
     Group (ManyLazy CNotGt),
     Alt (seqs [Many CSpace, Lit ''/>'']) (seqs [Lit ''>'', Many CSpace, Lit ''</input>''])]"

text \<open>\<^verbatim>\<open>/<div[^>]*>/g\<close> and \<^verbatim>\<open>/<h[1-6][^>]*>/g\<close>\<close>

definition any_div_re :: re where
  "any_div_re = seqs [Lit ''<div'', Many CNotGt, Lit ''>'']"

definition heading_re :: re where
  "heading_re = seqs [Lit ''<h'', One CDigit16, Many CNotGt, Lit ''>'']"

text \<open>\<^verbatim>\<open>performBasicAnalysis\<close>: five scans of the same text; the callbacks return the match.\<close>

definition analyse_img :: "string \<Rightarrow> string \<Rightarrow> string \<Rightarrow> nat \<Rightarrow> string \<times> AIAccessibilityFix list" where
  "analyse_img code' match attrs offset =
     (let isDecorative = re_test True decorative_re attrs in
      (match,
       [\<lparr>category = Images, action = ''Added alt attribute'',
         selector = ''img'' @ (if includes_str ''src'' attrs then ''[src]'' else []),
         summary = (if isDecorative then ''Added empty alt attribute for decorative image''
                    else ''Added descriptive alt attribute for meaningful image''),
         line = Some (getLineNumber code' offset),
         confidence = Some 95,
         explanation = Some (if isDecorative
           then ''Decorative images should have empty alt attributes to be ignored by screen readers''
           else ''Images should have descriptive alt text for screen reader users'')\<rparr>]))"

definition analyse_button :: "string \<Rightarrow> string \<Rightarrow> string \<Rightarrow> nat \<Rightarrow> string \<times> AIAccessibilityFix list" where
  "analyse_button code' match attrs offset =
     (match,
      [\<lparr>category = InteractiveElements, action = ''Added aria-label'',
        selector = ''button > svg'',
        summary = ''Added descriptive aria-label for button with only SVG content'',
        line = Some (getLineNumber code' offset),
        confidence = Some 90,
        explanation = Some ''Buttons with only SVG content need aria-label for screen reader accessibility''\<rparr>])"

definition analyse_link :: "string \<Rightarrow> string \<Rightarrow> string \<Rightarrow> nat \<Rightarrow> string \<times> AIAccessibilityFix list" where
  "analyse_link code' match attrs offset =
     (if textContent match = [] then
        (match,
         [\<lparr>category = Navigation, action = ''Added aria-label'',
           selector = ''a[href]'',
           summary = ''Added descriptive aria-label for link without text content'',
           line = Some (getLineNumber code' offset),
           confidence = Some 90,
           explanation = Some ''Links without text content need aria-label for screen reader users''\<rparr>])
      else (match, []))"

definition analyse_div :: "string \<Rightarrow> string \<Rightarrow> string \<Rightarrow> nat \<Rightarrow> string \<times> AIAccessibilityFix list" where
  "analyse_div code' match beforeOnClick offset =
     (match,
      [\<lparr>category = InteractiveElements, action = ''Added role and keyboard support'',
        selector = ''div[onClick]'',
        summary = ''Made clickable div keyboard accessible with role=\"button\" and tabIndex'',
        line = Some (getLineNumber code' offset),
        confidence = Some 85,
        explanation = Some ''Clickable divs need proper ARIA roles and keyboard navigation support''\<rparr>])"

definition analyse_input :: "string \<Rightarrow> string \<Rightarrow> string \<Rightarrow> nat \<Rightarrow> string \<times> AIAccessibilityFix list" where
  "analyse_input code' match attrs offset =
     (if \<not> hasAssociatedLabel code' then
        (match,
         [\<lparr>category = Forms, action = ''Added accessibility attributes'',
           selector = ''input'',
           summary = ''Added aria-label for input without associated label'',
           line = Some (getLineNumber code' offset),
           confidence = Some 90,
           explanation = Some ''Form inputs need labels or aria-label for screen reader accessibility''\<rparr>])
      else (match, []))"

definition performBasicAnalysis :: "string \<Rightarrow> AIAccessibilityFix list" where
  "performBasicAnalysis code' =
     snd (replace_all True img_re (analyse_img code') code')
     @ snd (replace_all True ai_button_re (analyse_button code') code')
     @ snd (replace_all True ai_link_re (analyse_link code') code')
     @ snd (replace_all True div_re (analyse_div code') code')
     @ snd (replace_all True ai_input_re (analyse_input code') code')"

text \<open>\<^verbatim>\<open>enhanceWithAIAnalysis\<close>: four advisory checks, each pushing at most one record.\<close>

definition heading_level :: "string \<Rightarrow> nat" where
  "heading_level h = of_char (h ! 2) - of_char (CHR ''0'')"

fun hasSkippedLevels :: "nat list \<Rightarrow> bool" where
  "hasSkippedLevels (a # b # ls) = (int b - int a > 1 \<or> hasSkippedLevels (b # ls))"
| "hasSkippedLevels ls = False"

definition enhanceWithAIAnalysis ::
    "string \<Rightarrow> AIAccessibilityFix list \<Rightarrow> Language \<Rightarrow> AIAccessibilityFix list" where
  "enhanceWithAIAnalysis code' basicFixes language =
     basicFixes
     @ (if includes_str ''<div'' code' \<and> \<not> includes_str ''role='' code'
           \<and> \<not> includes_str ''aria-label='' code'
           \<and> length (match_all False any_div_re code') > 3
        then [\<lparr>category = Semantics, action = ''Suggested semantic elements'',
                selector = ''div'',
                summary = ''Consider using semantic HTML elements (main, section, article, nav) instead of generic divs'',
                line = None, confidence = Some 75,
                explanation = Some ''Semantic HTML improves accessibility and SEO by providing meaningful structure''\<rparr>]
        else [])
     @ (if includes_str ''color:'' code' \<or> includes_str ''background-color:'' code'
        then [\<lparr>category = ARIA, action = ''Color contrast check'',
                selector = ''style'',
                summary = ''Verify color contrast ratios meet WCAG 2.1 AA standards (4.5:1 for normal text)'',
                line = None, confidence = Some 70,
                explanation = Some ''Insufficient color contrast makes text difficult to read for users with visual impairments''\<rparr>]
        else [])
     @ (if hasSkippedLevels (map heading_level (match_all False heading_re code'))
        then [\<lparr>category = Semantics, action = ''Heading structure'',
                selector = ''h1-h6'',
                summary = ''Avoid skipping heading levels (e.g., h1 to h3) for proper document outline'',
                line = None, confidence = Some 80,
                explanation = Some ''Proper heading hierarchy helps screen reader users navigate content effectively''\<rparr>]
        else [])
     @ (if includes_str ''onClick'' code' \<and> \<not> includes_str ''onKeyDown'' code'
           \<and> \<not> includes_str ''onKeyPress'' code'
        then [\<lparr>category = KeyboardNavigation, action = ''Keyboard event handling'',
                selector = ''interactive elements'',
                summary = ''Add keyboard event handlers (onKeyDown, onKeyPress) for interactive elements'',
                line = None, confidence = Some 85,
                explanation = Some ''Keyboard-only users need alternative ways to interact with clickable elements''\<rparr>]
        else [])"

text \<open>\<^verbatim>\<open>applyFixes\<close>: the five rewriting passes of this file (its \<^verbatim>\<open>fixes\<close> argument is not read).\<close>

definition apply_img :: "string \<Rightarrow> string \<Rightarrow> nat \<Rightarrow> string \<times> unit list" where
  "apply_img match attrs offset =
     (let isDecorative = re_test True decorative_re attrs in
      (''<img'' @ attrs @ '' alt=\"'' @ (if isDecorative then [] else ''Descriptive text for image'')
         @ ''\">'', []))"

definition apply_button :: "string \<Rightarrow> string \<Rightarrow> nat \<Rightarrow> string \<times> unit list" where
  "apply_button match attrs offset =
     (replace_first ''<button'' ''<button aria-label=\"Button action\"'' match, [])"

definition apply_link :: "string \<Rightarrow> string \<Rightarrow> nat \<Rightarrow> string \<times> unit list" where
  "apply_link match attrs offset =
     (if textContent match = []
      then (replace_first ''<a'' ''<a aria-label=\"Link destination\"'' match, [])
      else (match, []))"

definition apply_div :: "string \<Rightarrow> string \<Rightarrow> nat \<Rightarrow> string \<times> unit list" where
  "apply_div match beforeOnClick offset =
     (let replacement = match;
          replacement = (if \<not> includes_str ''role='' replacement
                         then replace_first ''<div'' ''<div role=\"button\"'' replacement
                         else replacement);
          replacement = (if \<not> includes_str ''tabIndex'' replacement
                         then replace_first ''<div'' ''<div tabIndex={0}'' replacement
                         else replacement);
          replacement = (if \<not> includes_str ''onKeyDown'' replacement
                         then replace_first ''<div''
                           ''<div onKeyDown={(e) => e.key === \"Enter\" && e.currentTarget.click()}''
                           replacement
                         else replacement)
      in (replacement, []))"

definition apply_input :: "string \<Rightarrow> string \<Rightarrow> string \<Rightarrow> nat \<Rightarrow> string \<times> unit list" where
  "apply_input code' match attrs offset =
     (if \<not> hasAssociatedLabel code' then
        (if ends_with ''/>'' match
         then replace_first ''/>'' '' aria-label=\"Input field\" />'' match
         else replace_first ''>'' '' aria-label=\"Input field\">'' match, [])
      else (match, []))"

definition applyFixes :: "string \<Rightarrow> AIAccessibilityFix list \<Rightarrow> string" where
  "applyFixes code' fixes_arg =
     (let fixedCode = code';
          fixedCode = fst (replace_all True img_re apply_img fixedCode);
          fixedCode = fst (replace_all True ai_button_re apply_button fixedCode);
          fixedCode = fst (replace_all True ai_link_re apply_link fixedCode);
          fixedCode = fst (replace_all True div_re apply_div fixedCode);
          fixedCode = fst (replace_all True ai_input_re (apply_input code') fixedCode)
      in trim fixedCode)"

text \<open>
  \<^verbatim>\<open>fixAccessibilityWithAI\<close> through \<^verbatim>\<open>analyzeCode\<close>, without the delay, the random confidence
  score and the narrative fields (\<^verbatim>\<open>analysis\<close>, \<^verbatim>\<open>suggestions\<close>) of the response.
\<close>

definition fixAccessibilityWithAI :: "string \<Rightarrow> Language \<Rightarrow> AIAccessibilityFix FixResult" where
  "fixAccessibilityWithAI sourceCode language =
     (let basicFixes = performBasicAnalysis sourceCode;
          aiEnhancedFixes = enhanceWithAIAnalysis sourceCode basicFixes language
      in \<lparr>code = applyFixes sourceCode aiEnhancedFixes,
          fixes = aiEnhancedFixes,
          hasChanges = (length aiEnhancedFixes > 0)\<rparr>)"

section \<open>The diff generator (\<^verbatim>\<open>generateDiff\<close>, accessibility-fixer.ts)\<close>

datatype DiffType = Added | Removed | Unchanged

record DiffLine =
  dtype :: DiffType
  content :: string
  lineNumber :: "nat option"

text \<open>
  \<^verbatim>\<open>lines[k]\<close> is \<^verbatim>\<open>undefined\<close> out of range (\<open>None\<close>), and \<^verbatim>\<open>lines[k] || ''\<close> turns
  \<^verbatim>\<open>undefined\<close> into the empty string.
\<close>

definition line_at :: "string list \<Rightarrow> nat \<Rightarrow> string option" where
  "line_at ls k = (if k < length ls then Some (ls ! k) else None)"

definition or_empty :: "string option \<Rightarrow> string" where
  "or_empty v = (case v of None \<Rightarrow> [] | Some l \<Rightarrow> l)"

text \<open>The \<^verbatim>\<open>while\<close> loop of \<^verbatim>\<open>generateDiff\<close>; the result is the list of pushed entries.\<close>

function diff_loop :: "string list \<Rightarrow> string list \<Rightarrow> nat \<Rightarrow> nat \<Rightarrow> DiffLine list" where
  "diff_loop originalLines fixedLines originalIndex fixedIndex =
     (if originalIndex < length originalLines \<or> fixedIndex < length fixedLines then
        (let originalLine = or_empty (line_at originalLines originalIndex);
             fixedLine = or_empty (line_at fixedLines fixedIndex)
         in if originalLine = fixedLine then
              \<lparr>dtype = Unchanged, content = originalLine, lineNumber = Some (originalIndex + 1)\<rparr>
                # diff_loop originalLines fixedLines (originalIndex + 1) (fixedIndex + 1)
            else if originalIndex \<ge> length originalLines then
              \<lparr>dtype = Added, content = fixedLine, lineNumber = Some (fixedIndex + 1)\<rparr>
                # diff_loop originalLines fixedLines originalIndex (fixedIndex + 1)
            else if fixedIndex \<ge> length fixedLines then
              \<lparr>dtype = Removed, content = originalLine, lineNumber = Some (originalIndex + 1)\<rparr>
                # diff_loop originalLines fixedLines (originalIndex + 1) fixedIndex
            else if line_at originalLines (originalIndex + 1) = line_at fixedLines (fixedIndex + 1) then
              \<lparr>dtype = Removed, content = originalLine, lineNumber = Some (originalIndex + 1)\<rparr>
                # \<lparr>dtype = Added, content = fixedLine, lineNumber = Some (fixedIndex + 1)\<rparr>
                # diff_loop originalLines fixedLines (originalIndex + 1) (fixedIndex + 1)
            else
              \<lparr>dtype = Unchanged, content = originalLine, lineNumber = Some (originalIndex + 1)\<rparr>
                # diff_loop originalLines fixedLines (originalIndex + 1) (fixedIndex + 1))
      else [])"
  by pat_completeness auto
termination
  by (relation "measure (\<lambda>(ol, fl, i, j). (length ol - i) + (length fl - j))") auto

declare diff_loop.simps [simp del]

definition generateDiff :: "string \<Rightarrow> string \<Rightarrow> DiffLine list" where
  "generateDiff original fixed = diff_loop (split_nl original) (split_nl fixed) 0 0"

section \<open>Properties of the diff generator\<close>

lemma diff_loop_same:
  "diff_loop ls ls i i =
     map (\<lambda>k. \<lparr>dtype = Unchanged, content = ls ! k, lineNumber = Some (k + 1)\<rparr>) [i..<length ls]"
proof (induction "length ls - i" arbitrary: i)
  case 0
  then have "\<not> i < length ls" by simp
  then show ?case by (simp add: diff_loop.simps)
next
  case (Suc n)
  then have lt: "i < length ls" and n: "n = length ls - (i + 1)" by simp_all
  have step: "diff_loop ls ls i i =
      \<lparr>dtype = Unchanged, content = ls ! i, lineNumber = Some (i + 1)\<rparr> # diff_loop ls ls (i + 1) (i + 1)"
    using lt by (subst diff_loop.simps) (simp add: line_at_def or_empty_def)
  have "[i..<length ls] = i # [i + 1..<length ls]"
    using lt by (simp add: upt_conv_Cons)
  with step Suc.hyps(1)[OF n] show ?case by simp
qed

text \<open>
  Claim C7, as the code has it.  When neither cursor is exhausted, the current lines differ and
  \<^verbatim>\<open>originalLines[i+1] === fixedLines[j+1]\<close>, the loop pushes a removed entry for the original
  line, then an added entry for the rewritten line, and advances both cursors.  The lookahead
  compares the raw array reads: an out-of-range read is \<^verbatim>\<open>undefined\<close>, which equals only
  another out-of-range read, never the empty string.
\<close>

theorem diff_lookahead_substitution:
  assumes "i < length ol" and "j < length fl" and "ol ! i \<noteq> fl ! j"
    and "line_at ol (i + 1) = line_at fl (j + 1)"
  shows "diff_loop ol fl i j =
     \<lparr>dtype = Removed, content = ol ! i, lineNumber = Some (i + 1)\<rparr>
       # \<lparr>dtype = Added, content = fl ! j, lineNumber = Some (j + 1)\<rparr>
       # diff_loop ol fl (i + 1) (j + 1)"
  using assms by (subst diff_loop.simps) (simp add: line_at_def or_empty_def)

theorem diff_lookahead_substitution_witness:
  "generateDiff ''a\<newline>c'' ''b\<newline>c'' =
     [\<lparr>dtype = Removed, content = ''a'', lineNumber = Some 1\<rparr>,
      \<lparr>dtype = Added, content = ''b'', lineNumber = Some 1\<rparr>,
      \<lparr>dtype = Unchanged, content = ''c'', lineNumber = Some 2\<rparr>]"
proof -
  have "diff_loop [''a'', ''c''] [''b'', ''c''] 0 0 =
     \<lparr>dtype = Removed, content = ''a'', lineNumber = Some 1\<rparr>
       # \<lparr>dtype = Added, content = ''b'', lineNumber = Some 1\<rparr>
       # diff_loop [''a'', ''c''] [''b'', ''c''] 1 1"
    using diff_lookahead_substitution [of 0 "[''a'', ''c'']" 0 "[''b'', ''c'']"]
    by (simp add: line_at_def)
  moreover have "diff_loop [''a'', ''c''] [''b'', ''c''] 1 1 =
     [\<lparr>dtype = Unchanged, content = ''c'', lineNumber = Some 2\<rparr>]"
    by (simp add: diff_loop.simps line_at_def or_empty_def)
  ultimately show ?thesis
    by (simp add: generateDiff_def split_nl_def)
qed

text \<open>
  Claim C7 as stated fails: with original text \<open>a\<newline>\<close> (lines \<open>a\<close> and the empty line) and
  rewritten text \<open>b\<close>, neither cursor is exhausted at the start, the current lines differ, and
  the next original line is the empty string while the next rewritten line is out of range.
  Treating out of range as the empty string would make the next lines equal, yet the loop
  pushes an unchanged entry, not a removed and an added one.
\<close>

theorem diff_lookahead_counterexample:
  "or_empty (line_at (split_nl ''a\<newline>'') 1) = or_empty (line_at (split_nl ''b'') 1)
   \<and> generateDiff ''a\<newline>'' ''b'' =
     [\<lparr>dtype = Unchanged, content = ''a'', lineNumber = Some 1\<rparr>,
      \<lparr>dtype = Unchanged, content = [], lineNumber = Some 2\<rparr>]"
  by (simp add: generateDiff_def split_nl_def diff_loop.simps line_at_def or_empty_def)

lemma diff_exhausted_step:
  "length ol \<le> i \<Longrightarrow> j < length fl \<Longrightarrow>
   diff_loop ol fl i j =
     (if fl ! j = []
      then \<lparr>dtype = Unchanged, content = [], lineNumber = Some (i + 1)\<rparr>
             # diff_loop ol fl (i + 1) (j + 1)
      else \<lparr>dtype = Added, content = fl ! j, lineNumber = Some (j + 1)\<rparr>
             # diff_loop ol fl i (j + 1))"
  by (subst diff_loop.simps) (simp add: line_at_def or_empty_def)

lemma diff_exhausted_added_entries:
  "length ol \<le> i \<Longrightarrow>
   filter (\<lambda>e. dtype e = Added) (diff_loop ol fl i j) =
     map (\<lambda>k. \<lparr>dtype = Added, content = fl ! k, lineNumber = Some (k + 1)\<rparr>)
       (filter (\<lambda>k. fl ! k \<noteq> []) [j..<length fl])"
proof (induction "length fl - j" arbitrary: i j)
  case 0
  then have "\<not> j < length fl" by simp
  with 0 show ?case by (simp add: diff_loop.simps)
next
  case (Suc n)
  then have lt: "j < length fl" and n: "n = length fl - (j + 1)" by simp_all
  have up: "[j..<length fl] = j # [j + 1..<length fl]"
    using lt by (simp add: upt_conv_Cons)
  show ?case
  proof (cases "fl ! j = []")
    case True
    have "diff_loop ol fl i j = \<lparr>dtype = Unchanged, content = [], lineNumber = Some (i + 1)\<rparr>
             # diff_loop ol fl (i + 1) (j + 1)"
      using diff_exhausted_step[OF Suc.prems lt] True by simp
    moreover have "length ol \<le> i + 1" using Suc.prems by simp
    ultimately show ?thesis using Suc.hyps(1)[OF n] True up by simp
  next
    case False
    have "diff_loop ol fl i j = \<lparr>dtype = Added, content = fl ! j, lineNumber = Some (j + 1)\<rparr>
             # diff_loop ol fl i (j + 1)"
      using diff_exhausted_step[OF Suc.prems lt] False by simp
    then show ?thesis using Suc.hyps(1)[OF n Suc.prems] False up by simp
  qed
qed

text \<open>
  Claim C8, as the code has it.  Whenever the original-side cursor is exhausted and a rewritten
  line remains at cursor \<open>j\<close>: if that line is not empty, the loop pushes it as an added entry
  with \<open>lineNumber = j + 1\<close> and advances \<open>j\<close> only; if it is empty, it equals the \<^verbatim>\<open>|| ''\<close>
  default of the exhausted side, so the equality branch, which comes first, pushes an unchanged
  entry with \<open>lineNumber = i + 1\<close> and advances both cursors.  So the added entries of the rest
  of the run are exactly the remaining non-empty rewritten lines, in order, each with its own
  line number.
\<close>

theorem diff_original_exhausted_added:
  "length ol \<le> i \<Longrightarrow> j < length fl \<Longrightarrow>
   (fl ! j \<noteq> [] \<longrightarrow>
      diff_loop ol fl i j =
        \<lparr>dtype = Added, content = fl ! j, lineNumber = Some (j + 1)\<rparr> # diff_loop ol fl i (j + 1))
   \<and> (fl ! j = [] \<longrightarrow>
      diff_loop ol fl i j =
        \<lparr>dtype = Unchanged, content = [], lineNumber = Some (i + 1)\<rparr>
          # diff_loop ol fl (i + 1) (j + 1))
   \<and> filter (\<lambda>e. dtype e = Added) (diff_loop ol fl i j) =
        map (\<lambda>k. \<lparr>dtype = Added, content = fl ! k, lineNumber = Some (k + 1)\<rparr>)
          (filter (\<lambda>k. fl ! k \<noteq> []) [j..<length fl])"
  using diff_exhausted_step[of ol i j fl] diff_exhausted_added_entries[of ol i fl j]
  by simp

text \<open>
  Claim C8 at original \<open>a\<close> and rewritten lines \<open>a\<close>, \<open>b\<close>, the empty line and \<open>c\<close>, from the
  point where the original is exhausted: two added entries around an unchanged one.
\<close>

theorem diff_original_exhausted_added_witness:
  "diff_loop [''a''] [''a'', ''b'', [], ''c''] 1 1 =
     [\<lparr>dtype = Added, content = ''b'', lineNumber = Some 2\<rparr>,
      \<lparr>dtype = Unchanged, content = [], lineNumber = Some 2\<rparr>,
      \<lparr>dtype = Added, content = ''c'', lineNumber = Some 4\<rparr>]"
proof -
  let ?ol = "[''a'']" and ?fl = "[''a'', ''b'', [], ''c'']"
  have a: "diff_loop ?ol ?fl 1 1 =
      \<lparr>dtype = Added, content = ''b'', lineNumber = Some 2\<rparr> # diff_loop ?ol ?fl 1 2"
    using diff_original_exhausted_added[of ?ol 1 1 ?fl] by (simp add: eval_nat_numeral)
  have b: "diff_loop ?ol ?fl 1 2 =
      \<lparr>dtype = Unchanged, content = [], lineNumber = Some 2\<rparr> # diff_loop ?ol ?fl 2 3"
    using diff_original_exhausted_added[of ?ol 1 2 ?fl] by (simp add: eval_nat_numeral)
  have c: "diff_loop ?ol ?fl 2 3 =
      \<lparr>dtype = Added, content = ''c'', lineNumber = Some 4\<rparr> # diff_loop ?ol ?fl 2 4"
    using diff_original_exhausted_added[of ?ol 2 3 ?fl] by (simp add: eval_nat_numeral)
  have d: "diff_loop ?ol ?fl 2 4 = []" by (simp add: diff_loop.simps)
  show ?thesis unfolding a b c d ..
qed

text \<open>
  Claim C8 as stated fails: with original text \<open>a\<close> and rewritten text \<open>a\<newline>\<newline>b\<close>, the
  original cursor is exhausted after the first line, and the remaining rewritten line 2 (the
  empty line) is pushed as unchanged, not as added.
\<close>

theorem diff_original_exhausted_counterexample:
  "generateDiff ''a'' ''a\<newline>\<newline>b'' =
     [\<lparr>dtype = Unchanged, content = ''a'', lineNumber = Some 1\<rparr>,
      \<lparr>dtype = Unchanged, content = [], lineNumber = Some 2\<rparr>,
      \<lparr>dtype = Added, content = ''b'', lineNumber = Some 3\<rparr>]"
  by (simp add: generateDiff_def split_nl_def diff_loop.simps line_at_def or_empty_def)

text \<open>
  Claim C9.  For every text \<open>t\<close>, \<open>generateDiff t t\<close> has exactly one entry per line of \<open>t\<close>,
  each unchanged, with the line as content, numbered \<open>1..N\<close> in order.
\<close>

theorem generateDiff_identical:
  "generateDiff t t =
     map (\<lambda>k. \<lparr>dtype = Unchanged, content = split_nl t ! k, lineNumber = Some (k + 1)\<rparr>)
       [0..<length (split_nl t)]"
  unfolding generateDiff_def by (rule diff_loop_same)

section \<open>Facts about the global replace and about trimming\<close>

text \<open>The definitions to unfold when a run is evaluated on a given text.\<close>

lemmas eval_defs = replace_all_def exec_at_def set_group_def at_word_boundary_def
  char_matches_def canonicalize_def is_word_char_def is_space_def rest_len_def
  re_test_def match_all_def trim_def ends_with_def getLineNumber_def lineOffset_def split_nl_def
  img_re_def button_re_def link_re_def tag_re_def div_re_def input_re_def label_re_def
  hasAssociatedLabel_def fix_img_def fix_button_def fix_link_def fix_div_def fix_input_def
  div_replacement_def textContent_def label_input_def
  rule_img_def rule_button_def rule_link_def rule_div_def rule_input_def

lemma scan_fixes_invariant:
  assumes "\<And>m g off f. f \<in> set (snd (cb m g off)) \<Longrightarrow> P f"
  shows "f \<in> set (snd (replace_scan ic r cb k off prev s)) \<Longrightarrow> P f"
proof (induction s arbitrary: k off prev)
  case Nil
  then show ?case using assms by (auto split: if_splits option.splits prod.splits)
next
  case (Cons c cs)
  then show ?case using assms
    by (auto split: if_splits option.splits prod.splits) (metis snd_conv)+
qed

lemma scan_no_match:
  "\<not> test_scan ic r prev s \<Longrightarrow> replace_scan ic r cb 0 off prev s = (s, [])"
  by (induction s arbitrary: off prev) (auto split: option.splits)

lemma exec_at_take: "exec_at ic r prev s = Some (m, g) \<Longrightarrow> \<exists>n. m = take n s"
  by (auto simp: exec_at_def split: list.splits prod.splits)

lemma scan_identity:
  assumes "\<And>m g off. cb m g off = (m, [])"
  shows "replace_scan ic r cb k off prev s = (drop k s, [])"
proof (induction s arbitrary: k off prev)
  case Nil
  show ?case using assms by (auto split: option.splits dest: exec_at_take)
next
  case (Cons c cs)
  show ?case
  proof (cases "k = 0")
    case False
    then show ?thesis using Cons by (cases k) auto
  next
    case True
    show ?thesis
    proof (cases "exec_at ic r prev (c # cs)")
      case None
      with True Cons show ?thesis by simp
    next
      case (Some a)
      obtain m g where a: "a = (m, g)" by (cases a)
      from Some a obtain n where m: "m = take n (c # cs)" by (auto dest: exec_at_take)
      show ?thesis
      proof (cases "m = []")
        case True
        with \<open>k = 0\<close> Some a Cons assms show ?thesis by simp
      next
        case False
        then obtain n' where n: "n = Suc n'" using m by (cases n) auto
        have "m @ drop (length m - 1) cs = c # cs"
          using m n by (simp add: min_def)
        with False \<open>k = 0\<close> Some a Cons assms show ?thesis by simp
      qed
    qed
  qed
qed

lemma trim_decomp: "\<exists>v. dropWhile is_space s = trim s @ v"
proof -
  let ?t = "dropWhile is_space s"
  have "rev ?t = takeWhile is_space (rev ?t) @ dropWhile is_space (rev ?t)" by simp
  then have "?t = rev (dropWhile is_space (rev ?t)) @ rev (takeWhile is_space (rev ?t))"
    by (metis rev_append rev_rev_ident)
  then show ?thesis unfolding trim_def by blast
qed

lemma trim_no_leading: "trim s \<noteq> [] \<Longrightarrow> \<not> is_space (hd (trim s))"
proof -
  assume ne: "trim s \<noteq> []"
  obtain v where v: "dropWhile is_space s = trim s @ v" using trim_decomp by blast
  then have "dropWhile is_space s \<noteq> []" using ne by auto
  then have "\<not> is_space (hd (dropWhile is_space s))" by (rule hd_dropWhile)
  with v ne show ?thesis by simp
qed

lemma trim_no_trailing: "trim s \<noteq> [] \<Longrightarrow> \<not> is_space (last (trim s))"
proof -
  assume ne: "trim s \<noteq> []"
  let ?d = "dropWhile is_space (rev (dropWhile is_space s))"
  have "?d \<noteq> []" using ne by (simp add: trim_def)
  then have "\<not> is_space (hd ?d)" by (rule hd_dropWhile)
  moreover have "last (trim s) = hd ?d" using \<open>?d \<noteq> []\<close> by (simp add: trim_def last_rev)
  ultimately show ?thesis by simp
qed

lemma trim_idem: "trim (trim s) = trim s"
proof (cases "trim s = []")
  case True
  have "trim [] = []" by (simp add: trim_def)
  with True show ?thesis by simp
next
  case False
  have a: "dropWhile is_space (trim s) = trim s"
    using trim_no_leading[OF False] False by (cases "trim s") auto
  have "rev (trim s) \<noteq> []" using False by simp
  moreover have "\<not> is_space (hd (rev (trim s)))"
    using trim_no_trailing[OF False] False by (simp add: hd_rev)
  ultimately have b: "dropWhile is_space (rev (trim s)) = rev (trim s)"
    by (cases "rev (trim s)") auto
  have "trim (trim s) = rev (dropWhile is_space (rev (dropWhile is_space (trim s))))"
    by (rule trim_def)
  also have "\<dots> = rev (dropWhile is_space (rev (trim s)))" by (simp only: a)
  also have "\<dots> = rev (rev (trim s))" by (simp only: b)
  finally show ?thesis by simp
qed

lemmas ai_eval_defs = decorative_re_def ai_button_re_def ai_link_re_def ai_input_re_def
  any_div_re_def heading_re_def analyse_img_def analyse_button_def analyse_link_def
  analyse_div_def analyse_input_def performBasicAnalysis_def enhanceWithAIAnalysis_def
  heading_level_def apply_img_def apply_button_def apply_link_def apply_div_def
  apply_input_def applyFixes_def fixAccessibilityWithAI_def

section \<open>Line numbers of the fix records\<close>

lemma length_split_from:
  "length (split_from cur s) = length (filter (\<lambda>c. c = CHR 0x0A) s) + 1"
  by (induction s arbitrary: cur) auto

lemma length_split_nl: "length (split_nl s) = length (filter (\<lambda>c. c = CHR 0x0A) s) + 1"
  by (simp add: split_nl_def length_split_from)

lemma filter_take_le: "length (filter P (take n s)) \<le> length (filter P s)"
proof -
  have "length (filter P s) = length (filter P (take n s)) + length (filter P (drop n s))"
    by (metis append_take_drop_id filter_append length_append)
  then show ?thesis by simp
qed

lemma getLineNumber_count:
  "getLineNumber s off = length (filter (\<lambda>c. c = CHR 0x0A) (take off s)) + 1"
  by (simp add: getLineNumber_def lineOffset_def length_split_nl)

lemma getLineNumber_bounds: "1 \<le> getLineNumber s off \<and> getLineNumber s off \<le> length (split_nl s)"
  by (simp add: getLineNumber_count length_split_nl filter_take_le)

lemma rule_lines:
  "f \<in> set (snd (rule_img s t)) \<Longrightarrow> \<exists>off. line f = Some (getLineNumber s off)"
  "f \<in> set (snd (rule_button s t)) \<Longrightarrow> \<exists>off. line f = Some (getLineNumber s off)"
  "f \<in> set (snd (rule_link s t)) \<Longrightarrow> \<exists>off. line f = Some (getLineNumber s off)"
  "f \<in> set (snd (rule_div s t)) \<Longrightarrow> \<exists>off. line f = Some (getLineNumber s off)"
  "f \<in> set (snd (rule_input s t)) \<Longrightarrow> \<exists>off. line f = Some (getLineNumber s off)"
  unfolding rule_img_def rule_button_def rule_link_def rule_div_def rule_input_def replace_all_def
  by (erule scan_fixes_invariant[rotated];
      auto simp: fix_img_def fix_button_def fix_link_def fix_div_def fix_input_def split: if_splits)+

lemma fixes_fixAccessibility:
  "set (fixes (fixAccessibility s)) =
     set (snd (rule_img s s))
     \<union> set (snd (rule_button s (fst (rule_img s s))))
     \<union> set (snd (rule_link s (fst (rule_button s (fst (rule_img s s))))))
     \<union> set (snd (rule_div s (fst (rule_link s (fst (rule_button s (fst (rule_img s s))))))))
     \<union> set (snd (rule_input s (text_before_inputs s)))"
  by (auto simp: fixAccessibility_def text_before_inputs_def text_before_divs_def text_before_links_def text_before_buttons_def split: prod.splits)

lemma fix_line_in_range:
  assumes "f \<in> set (fixes (fixAccessibility s))"
  shows "\<exists>off l. line f = Some l
     \<and> l = length (filter (\<lambda>c. c = CHR 0x0A) (take off s)) + 1
     \<and> 1 \<le> l \<and> l \<le> length (split_nl s) + 1"
proof -
  from assms obtain off where "line f = Some (getLineNumber s off)"
    unfolding fixes_fixAccessibility by (auto dest: rule_lines)
  moreover have "getLineNumber s off \<le> length (split_nl s) + 1"
    using getLineNumber_bounds[of s off] by simp
  ultimately show ?thesis
    using getLineNumber_count[of s off] by auto
qed

lemma scan_snd_concat:
  assumes "\<And>m g off. snd (cb m g off) = h (m, g, off)"
  shows "snd (replace_scan ic r cb k off prev s) =
     concat (map h (snd (replace_scan ic r (\<lambda>m g off. (m, [(m, g, off)])) k off prev s)))"
proof (induction s arbitrary: k off prev)
  case Nil
  show ?case using assms by (auto split: option.splits)
next
  case (Cons c cs)
  show ?case
  proof (cases "k = 0")
    case False
    then show ?thesis using Cons by simp
  next
    case True
    show ?thesis
    proof (cases "exec_at ic r prev (c # cs)")
      case None
      with True Cons[of 0 "Suc off" "Some c"] show ?thesis by (simp add: case_prod_beta)
    next
      case (Some a)
      obtain m g where a: "a = (m, g)" by (cases a)
      with True Some a Cons[of 0 "Suc off" "Some c"] Cons[of "length m - 1" "Suc off" "Some c"]
      show ?thesis using assms by (simp add: case_prod_beta)
    qed
  qed
qed

lemma rule_fixes_by_occurrence:
  "snd (rule_img s t) = concat (map (\<lambda>(m, g, off). snd (fix_img s m g off)) (occurrences True img_re t))"
  "snd (rule_button s t) = concat (map (\<lambda>(m, g, off). snd (fix_button s m g off)) (occurrences True button_re t))"
  "snd (rule_link s t) = concat (map (\<lambda>(m, g, off). snd (fix_link s m g off)) (occurrences True link_re t))"
  "snd (rule_div s t) = concat (map (\<lambda>(m, g, off). snd (fix_div s m g off)) (occurrences True div_re t))"
  "snd (rule_input s t) = concat (map (\<lambda>(m, g, off). snd (fix_input s m g off)) (occurrences True input_re t))"
  unfolding rule_img_def rule_button_def rule_link_def rule_div_def rule_input_def
    occurrences_def replace_all_def
  by (rule scan_snd_concat; simp)+

lemma map_concat_cond:
  "(\<And>x. map f (h x) = (if P x then [k x] else [])) \<Longrightarrow>
   map f (concat (map h xs)) = map k (filter P xs)"
  by (induction xs) auto

lemma rule_lines_by_occurrence:
  "map line (snd (rule_img s t)) =
     map (\<lambda>(m, g, off). Some (getLineNumber s off)) (occurrences True img_re t)"
  "map line (snd (rule_button s t)) =
     map (\<lambda>(m, g, off). Some (getLineNumber s off)) (occurrences True button_re t)"
  "map line (snd (rule_link s t)) =
     map (\<lambda>(m, g, off). Some (getLineNumber s off))
       (filter (\<lambda>(m, g, off). textContent m = []) (occurrences True link_re t))"
  "map line (snd (rule_div s t)) =
     map (\<lambda>(m, g, off). Some (getLineNumber s off)) (occurrences True div_re t)"
  "map line (snd (rule_input s t)) =
     (if hasAssociatedLabel s then []
      else map (\<lambda>(m, g, off). Some (getLineNumber s off)) (occurrences True input_re t))"
proof -
  show "map line (snd (rule_img s t)) =
     map (\<lambda>(m, g, off). Some (getLineNumber s off)) (occurrences True img_re t)"
    unfolding rule_fixes_by_occurrence
    using map_concat_cond[of line "\<lambda>(m, g, off). snd (fix_img s m g off)" "\<lambda>x. True"
        "\<lambda>(m, g, off). Some (getLineNumber s off)" "occurrences True img_re t"]
    by (simp add: fix_img_def case_prod_beta)
  show "map line (snd (rule_button s t)) =
     map (\<lambda>(m, g, off). Some (getLineNumber s off)) (occurrences True button_re t)"
    unfolding rule_fixes_by_occurrence
    using map_concat_cond[of line "\<lambda>(m, g, off). snd (fix_button s m g off)" "\<lambda>x. True"
        "\<lambda>(m, g, off). Some (getLineNumber s off)" "occurrences True button_re t"]
    by (simp add: fix_button_def case_prod_beta)
  show "map line (snd (rule_link s t)) =
     map (\<lambda>(m, g, off). Some (getLineNumber s off))
       (filter (\<lambda>(m, g, off). textContent m = []) (occurrences True link_re t))"
    unfolding rule_fixes_by_occurrence
    using map_concat_cond[of line "\<lambda>(m, g, off). snd (fix_link s m g off)"
        "\<lambda>(m, g, off). textContent m = []"
        "\<lambda>(m, g, off). Some (getLineNumber s off)" "occurrences True link_re t"]
    by (simp add: fix_link_def case_prod_beta)
  show "map line (snd (rule_div s t)) =
     map (\<lambda>(m, g, off). Some (getLineNumber s off)) (occurrences True div_re t)"
    unfolding rule_fixes_by_occurrence
    using map_concat_cond[of line "\<lambda>(m, g, off). snd (fix_div s m g off)" "\<lambda>x. True"
        "\<lambda>(m, g, off). Some (getLineNumber s off)" "occurrences True div_re t"]
    by (simp add: fix_div_def case_prod_beta)
  show "map line (snd (rule_input s t)) =
     (if hasAssociatedLabel s then []
      else map (\<lambda>(m, g, off). Some (getLineNumber s off)) (occurrences True input_re t))"
    unfolding rule_fixes_by_occurrence
    using map_concat_cond[of line "\<lambda>(m, g, off). snd (fix_input s m g off)"
        "\<lambda>x. \<not> hasAssociatedLabel s"
        "\<lambda>(m, g, off). Some (getLineNumber s off)" "occurrences True input_re t"]
    by (simp add: fix_input_def case_prod_beta)
qed

lemma fixes_by_pass:
  "fixes (fixAccessibility s) =
     snd (rule_img s s) @ snd (rule_button s (text_before_buttons s))
     @ snd (rule_link s (text_before_links s)) @ snd (rule_div s (text_before_divs s))
     @ snd (rule_input s (text_before_inputs s))"
  by (simp add: fixAccessibility_def text_before_inputs_def text_before_divs_def
      text_before_links_def text_before_buttons_def case_prod_beta)

lemma lines_by_offset:
  "map line (fixes (fixAccessibility s)) = map (\<lambda>off. Some (getLineNumber s off)) (fix_offsets s)"
  unfolding fixes_by_pass fix_offsets_def
  by (simp add: rule_lines_by_occurrence case_prod_beta comp_def filter_map)

lemma scan_occurrences_sound:
  "(m, g, ofs) \<in> set (snd (replace_scan ic r (\<lambda>m g off. (m, [(m, g, off)])) k off prev s)) \<Longrightarrow>
   off + k \<le> ofs \<and> ofs \<le> off + length s
   \<and> exec_at ic r (if ofs = off then prev else Some (s ! (ofs - off - 1))) (drop (ofs - off) s) = Some (m, g)"
proof (induction s arbitrary: k off prev)
  case Nil
  then show ?case by (auto split: if_splits option.splits)
next
  case (Cons c cs)
  let ?cb = "\<lambda>m g off. (m, [(m, g, off)])"
  have rec: "off + k \<le> ofs \<and> ofs \<le> off + length (c # cs)
      \<and> exec_at ic r (if ofs = off then prev else Some ((c # cs) ! (ofs - off - 1)))
            (drop (ofs - off) (c # cs)) = Some (m, g)"
    if mem: "(m, g, ofs) \<in> set (snd (replace_scan ic r ?cb k' (Suc off) (Some c) cs))"
      and k': "k \<le> Suc k'" for k'
  proof -
    note ih = Cons.IH[OF mem]
    have a: "Suc off + k' \<le> ofs" by (rule conjunct1[OF ih])
    have b: "ofs \<le> Suc off + length cs" by (rule conjunct1[OF conjunct2[OF ih]])
    have e: "exec_at ic r (if ofs = Suc off then Some c else Some (cs ! (ofs - Suc off - 1)))
            (drop (ofs - Suc off) cs) = Some (m, g)"
      by (rule conjunct2[OF conjunct2[OF ih]])
    define d where "d = ofs - Suc off"
    have d: "ofs = Suc off + d" using a by (simp add: d_def)
    have "(if ofs = off then prev else Some ((c # cs) ! (ofs - off - 1)))
        = (if ofs = Suc off then Some c else Some (cs ! (ofs - Suc off - 1)))"
      unfolding d by (cases d) auto
    moreover have "drop (ofs - off) (c # cs) = drop (ofs - Suc off) cs"
      unfolding d by simp
    ultimately show ?thesis using a b e k' by simp
  qed
  show ?case
  proof (cases "k = 0")
    case False
    with Cons.prems have "(m, g, ofs) \<in> set (snd (replace_scan ic r ?cb (k - 1) (Suc off) (Some c) cs))"
      by simp
    from rec[OF this] False show ?thesis by auto
  next
    case True
    show ?thesis
    proof (cases "exec_at ic r prev (c # cs)")
      case None
      with True Cons.prems have "(m, g, ofs) \<in> set (snd (replace_scan ic r ?cb 0 (Suc off) (Some c) cs))"
        by (simp add: case_prod_beta)
      from rec[OF this] True show ?thesis by simp
    next
      case (Some a)
      obtain m' g' where a: "a = (m', g')" by (cases a)
      from True Some a Cons.prems have
        "(m, g, ofs) = (m', g', off)
         \<or> (m, g, ofs) \<in> set (snd (replace_scan ic r ?cb 0 (Suc off) (Some c) cs))
         \<or> (m, g, ofs) \<in> set (snd (replace_scan ic r ?cb (length m' - 1) (Suc off) (Some c) cs))"
        by (auto simp: case_prod_beta split: if_splits)
      then show ?thesis
      proof (elim disjE)
        assume "(m, g, ofs) = (m', g', off)"
        with Some a True show ?thesis by simp
      next
        assume "(m, g, ofs) \<in> set (snd (replace_scan ic r ?cb 0 (Suc off) (Some c) cs))"
        from rec[OF this] True show ?thesis by simp
      next
        assume "(m, g, ofs) \<in> set (snd (replace_scan ic r ?cb (length m' - 1) (Suc off) (Some c) cs))"
        from rec[OF this] True show ?thesis by simp
      qed
    qed
  qed
qed

lemma occurrences_sound:
  "(m, g, off) \<in> set (occurrences ic r t) \<Longrightarrow>
   off \<le> length t \<and> exec_at ic r (char_before t off) (drop off t) = Some (m, g)"
  using scan_occurrences_sound[of m g off ic r 0 0 None t]
  by (cases "off = 0") (simp_all add: occurrences_def replace_all_def char_before_def)

text \<open>
  Claim C6.  The lines of the fix records of a run are, record by record, one more than the
  number of line feeds in the original text before the offset of the match the record was
  pushed for (\<open>fix_offsets\<close>: the offset of the match in the text its pass scans, cut off at the
  end of the original text by \<^verbatim>\<open>substring\<close>).  Every record has a line, and it lies between 1
  and the number of lines of the original text plus one.  The offsets are those of real
  matches: at each offset a pass reports, its pattern matches the scanned text with the
  reported match and group.
\<close>

theorem fix_line_from_offset:
  "map line (fixes (fixAccessibility s)) =
     map (\<lambda>off. Some (length (filter (\<lambda>c. c = CHR 0x0A) (take off s)) + 1)) (fix_offsets s)
   \<and> (\<forall>f\<in>set (fixes (fixAccessibility s)).
        \<exists>l. line f = Some l \<and> 1 \<le> l \<and> l \<le> length (split_nl s) + 1)
   \<and> (\<forall>ic r t m g off. (m, g, off) \<in> set (occurrences ic r t) \<longrightarrow>
        off \<le> length t \<and> exec_at ic r (char_before t off) (drop off t) = Some (m, g))"
proof (intro conjI ballI allI impI)
  show "map line (fixes (fixAccessibility s)) =
     map (\<lambda>off. Some (length (filter (\<lambda>c. c = CHR 0x0A) (take off s)) + 1)) (fix_offsets s)"
    unfolding lines_by_offset by (simp add: getLineNumber_count)
  show "\<exists>l. line f = Some l \<and> 1 \<le> l \<and> l \<le> length (split_nl s) + 1"
    if "f \<in> set (fixes (fixAccessibility s))" for f
    using fix_line_in_range[OF that] by blast
  show "off \<le> length t" if "(m, g, off) \<in> set (occurrences ic r t)" for ic r t m g off
    using occurrences_sound[OF that] by simp
  show "exec_at ic r (char_before t off) (drop off t) = Some (m, g)"
    if "(m, g, off) \<in> set (occurrences ic r t)" for ic r t m g off
    using occurrences_sound[OF that] by simp
qed

text \<open>
  Claim C6 at a three-line text with an image on line 2 and an input on line 3: the input is
  found at offset 17 of the text the fifth pass scans (the image pass has inserted seven
  characters before it), and the first 17 characters of the original text hold two line feeds.
\<close>

theorem fix_line_from_offset_witness:
  "fix_offsets ''<p>\<newline><img>\<newline><input />'' = [4, 17]
   \<and> map line (fixes (fixAccessibility ''<p>\<newline><img>\<newline><input />'')) = [Some 2, Some 3]"
proof -
  let ?s = "''<p>\<newline><img>\<newline><input />''"
  have o: "fix_offsets ?s = [4, 17]"
    by (simp add: fix_offsets_def occurrences_def text_before_inputs_def text_before_divs_def
        text_before_links_def text_before_buttons_def eval_defs)
  from fix_line_from_offset[of ?s]
  have "map line (fixes (fixAccessibility ?s)) =
     map (\<lambda>off. Some (length (filter (\<lambda>c. c = CHR 0x0A) (take off ?s)) + 1)) (fix_offsets ?s)"
    by (rule conjunct1)
  then have "map line (fixes (fixAccessibility ?s)) = [Some 2, Some 3]"
    unfolding o by simp
  with o show ?thesis by simp
qed

section \<open>The result of a run\<close>

lemma rule_no_match:
  "\<not> re_test True img_re t \<Longrightarrow> rule_img s t = (t, [])"
  "\<not> re_test True button_re t \<Longrightarrow> rule_button s t = (t, [])"
  "\<not> re_test True link_re t \<Longrightarrow> rule_link s t = (t, [])"
  "\<not> re_test True div_re t \<Longrightarrow> rule_div s t = (t, [])"
  "\<not> re_test True input_re t \<Longrightarrow> rule_input s t = (t, [])"
  by (simp_all add: rule_img_def rule_button_def rule_link_def rule_div_def rule_input_def
      replace_all_def re_test_def scan_no_match)

lemma fixAccessibility_no_match:
  "no_rule_matches s \<Longrightarrow> fixAccessibility s = \<lparr>code = trim s, fixes = [], hasChanges = False\<rparr>"
  by (simp add: no_rule_matches_def fixAccessibility_def rule_no_match)

lemma code_fixAccessibility_trimmed: "\<exists>t. code (fixAccessibility s) = trim t"
  by (auto simp: fixAccessibility_def split: prod.splits)

lemma hasChanges_fixAccessibility:
  "hasChanges (fixAccessibility s) = (fixes (fixAccessibility s) \<noteq> [])"
  by (simp add: fixAccessibility_def split: prod.splits)

text \<open>
  Claim C10.  \<open>fixAccessibility\<close> is a total function: the source has no \<^verbatim>\<open>throw\<close> and applies
  only string operations to strings (group 1 takes part in every match), so the model has no
  error value and returns a result for every text.  The returned code is trimmed (trimming it
  again changes nothing, and it neither begins nor ends with white space), \<open>hasChanges\<close> says
  whether the fix list is non-empty, and when none of the five patterns matches the text, the
  fix list is empty, \<open>hasChanges\<close> is false and the code is the trimmed input.
\<close>

theorem fixAccessibility_total_trimmed:
  "trim (code (fixAccessibility s)) = code (fixAccessibility s)
   \<and> (code (fixAccessibility s) \<noteq> [] \<longrightarrow>
        \<not> is_space (hd (code (fixAccessibility s))) \<and> \<not> is_space (last (code (fixAccessibility s))))
   \<and> hasChanges (fixAccessibility s) = (fixes (fixAccessibility s) \<noteq> [])
   \<and> (no_rule_matches s \<longrightarrow>
        fixAccessibility s = \<lparr>code = trim s, fixes = [], hasChanges = False\<rparr>)"
proof -
  obtain t where t: "code (fixAccessibility s) = trim t"
    using code_fixAccessibility_trimmed by blast
  show ?thesis
    unfolding t using trim_idem[of t] trim_no_leading[of t] trim_no_trailing[of t]
      hasChanges_fixAccessibility[of s] fixAccessibility_no_match[of s]
    by (simp add: t)
qed

text \<open>
  Claim C10 at a text with white space around it that no pattern matches.
\<close>

theorem fixAccessibility_total_trimmed_witness:
  "fixAccessibility ''  <p>Hello</p>\<newline> '' =
     \<lparr>code = ''<p>Hello</p>'', fixes = [], hasChanges = False\<rparr>
   \<and> \<not> is_space (hd (code (fixAccessibility ''  <p>Hello</p>\<newline> '')))
   \<and> \<not> is_space (last (code (fixAccessibility ''  <p>Hello</p>\<newline> '')))"
proof -
  have nm: "no_rule_matches ''  <p>Hello</p>\<newline> ''"
    by (simp add: no_rule_matches_def eval_defs)
  have tr: "trim ''  <p>Hello</p>\<newline> '' = ''<p>Hello</p>''"
    by (simp add: trim_def is_space_def)
  from fixAccessibility_total_trimmed [of "''  <p>Hello</p>\<newline> ''"] nm
  have r: "fixAccessibility ''  <p>Hello</p>\<newline> '' =
      \<lparr>code = trim ''  <p>Hello</p>\<newline> '', fixes = [], hasChanges = False\<rparr>"
    by blast
  show ?thesis unfolding r tr by (simp add: is_space_def)
qed


section \<open>Running the engine on its own output\<close>

text \<open>
  When none of the five patterns matches the output of a run, a second run on that output
  returns the same text and no fix record.
\<close>

lemma second_run_no_match:
  "no_rule_matches (code (fixAccessibility s)) \<Longrightarrow>
   fixAccessibility (code (fixAccessibility s)) =
     \<lparr>code = code (fixAccessibility s), fixes = [], hasChanges = False\<rparr>"
proof -
  assume nm: "no_rule_matches (code (fixAccessibility s))"
  obtain t where t: "code (fixAccessibility s) = trim t"
    using code_fixAccessibility_trimmed by blast
  show ?thesis
    using fixAccessibility_no_match[OF nm] trim_idem[of t] by (simp add: t)
qed

lemma run_img: "code (fixAccessibility ''<img src=\"/x.png\"/>'') = ''<img src=\"/x.png\"/ alt=\"\">''"
  by (simp add: fixAccessibility_def eval_defs)

lemma run_button:
  "code (fixAccessibility ''<button><svg></svg></button>'') =
     ''<button aria-label=\"Button\"><svg></svg></button>''"
  by (simp add: fixAccessibility_def eval_defs)

lemma run_link: "code (fixAccessibility ''<a href=\"#\"></a>'') = ''<a aria-label=\"Link\" href=\"#\"></a>''"
  by (simp add: fixAccessibility_def eval_defs)

lemma run_div:
  "code (fixAccessibility ''<div onClick={() => {}}/>'') =
     ''<div tabIndex={0} role=\"button\" onClick={() => {}}/>''"
  by (simp add: fixAccessibility_def eval_defs Let_def)

lemma run_input: "code (fixAccessibility ''<input />'') = ''<input  aria-label=\"Input\" />''"
  by (simp add: fixAccessibility_def eval_defs)

text \<open>
  This is so for the five texts that trigger one rule each.
\<close>

lemma second_run_single_rule_inputs:
  "fixAccessibility (code (fixAccessibility ''<img src=\"/x.png\"/>'')) =
     \<lparr>code = ''<img src=\"/x.png\"/ alt=\"\">'', fixes = [], hasChanges = False\<rparr>
   \<and> fixAccessibility (code (fixAccessibility ''<button><svg></svg></button>'')) =
     \<lparr>code = ''<button aria-label=\"Button\"><svg></svg></button>'', fixes = [], hasChanges = False\<rparr>
   \<and> fixAccessibility (code (fixAccessibility ''<a href=\"#\"></a>'')) =
     \<lparr>code = ''<a aria-label=\"Link\" href=\"#\"></a>'', fixes = [], hasChanges = False\<rparr>
   \<and> fixAccessibility (code (fixAccessibility ''<div onClick={() => {}}/>'')) =
     \<lparr>code = ''<div tabIndex={0} role=\"button\" onClick={() => {}}/>'', fixes = [], hasChanges = False\<rparr>
   \<and> fixAccessibility (code (fixAccessibility ''<input />'')) =
     \<lparr>code = ''<input  aria-label=\"Input\" />'', fixes = [], hasChanges = False\<rparr>"
proof -
  have 1: "no_rule_matches (code (fixAccessibility ''<img src=\"/x.png\"/>''))"
    unfolding run_img by (simp add: no_rule_matches_def eval_defs)
  have 2: "no_rule_matches (code (fixAccessibility ''<button><svg></svg></button>''))"
    unfolding run_button by (simp add: no_rule_matches_def eval_defs)
  have 3: "no_rule_matches (code (fixAccessibility ''<a href=\"#\"></a>''))"
    unfolding run_link by (simp add: no_rule_matches_def eval_defs)
  have 4: "no_rule_matches (code (fixAccessibility ''<div onClick={() => {}}/>''))"
    unfolding run_div by (simp add: no_rule_matches_def eval_defs)
  have 5: "no_rule_matches (code (fixAccessibility ''<input />''))"
    unfolding run_input by (simp add: no_rule_matches_def eval_defs)
  show ?thesis
    using second_run_no_match[OF 1] second_run_no_match[OF 2] second_run_no_match[OF 3]
      second_run_no_match[OF 4] second_run_no_match[OF 5]
    by (simp only: run_img run_button run_link run_div run_input simp_thms)
qed

text \<open>
  Claim C3 as stated fails: on a button with an icon and a text followed by an icon-only button
  the lazy \<^verbatim>\<open>.*?\<close> of the button pattern runs up to the second \<^verbatim>\<open></svg>\<close>, so the first run
  labels the first button only.  The second run, on that output, matches the second button,
  changes the text and records a further fix.
\<close>

theorem second_run_counterexample:
  "fixAccessibility ''<button><svg></svg> Save</button>\<newline><button><svg></svg></button>'' =
     \<lparr>code = ''<button aria-label=\"Button\"><svg></svg> Save</button>\<newline><button><svg></svg></button>'',
      fixes = [\<lparr>category = InteractiveElements, action = ''Added aria-label'',
        selector = ''button > svg'',
        summary = ''Added aria-label for button with only SVG content'', line = Some 1\<rparr>],
      hasChanges = True\<rparr>
   \<and> fixAccessibility
       ''<button aria-label=\"Button\"><svg></svg> Save</button>\<newline><button><svg></svg></button>'' =
     \<lparr>code = ''<button aria-label=\"Button\"><svg></svg> Save</button>\<newline><button aria-label=\"Button\"><svg></svg></button>'',
      fixes = [\<lparr>category = InteractiveElements, action = ''Added aria-label'',
        selector = ''button > svg'',
        summary = ''Added aria-label for button with only SVG content'', line = Some 2\<rparr>],
      hasChanges = True\<rparr>"
  by (simp add: fixAccessibility_def eval_defs)


section \<open>The image and the clickable-container scenarios\<close>

text \<open>
  Claim C1 as stated fails on \<open>fixAccessibility\<close>: the alt attribute it inserts for
  \<^verbatim>\<open><img src="/x.png"/>\<close> is the empty \<^verbatim>\<open>alt=""\<close>.
\<close>

theorem img_scenario_counterexample:
  "code (fixAccessibility ''<img src=\"/x.png\"/>'') = ''<img src=\"/x.png\"/ alt=\"\">''"
  by (simp add: fixAccessibility_def eval_defs)

text \<open>
  Claim C1, as the code has it.  For \<^verbatim>\<open><img src="/x.png"/>\<close>, \<open>fixAccessibility\<close> inserts
  \<^verbatim>\<open>alt=""\<close> (it has no test for decorative keywords: any matched image gets the empty alt,
  as the second text shows) and records exactly one fix, of category Images.  The attribute
  text contains none of the decorative keywords, so the AI service inserts the non-empty
  \<^verbatim>\<open>alt="Descriptive text for image"\<close> and records exactly one fix, of category Images.
\<close>

theorem img_scenario:
  "fixAccessibility ''<img src=\"/x.png\"/>'' =
     \<lparr>code = ''<img src=\"/x.png\"/ alt=\"\">'',
      fixes = [\<lparr>category = Images, action = ''Added alt attribute'', selector = ''img[src]'',
        summary = ''Added empty alt attribute for decorative image'', line = Some 1\<rparr>],
      hasChanges = True\<rparr>
   \<and> fixAccessibility ''<img class=\"hero photo\">'' =
     \<lparr>code = ''<img class=\"hero photo\" alt=\"\">'',
      fixes = [\<lparr>category = Images, action = ''Added alt attribute'', selector = ''img'',
        summary = ''Added empty alt attribute for decorative image'', line = Some 1\<rparr>],
      hasChanges = True\<rparr>
   \<and> re_test True decorative_re '' src=\"/x.png\"/'' = False
   \<and> code (fixAccessibilityWithAI ''<img src=\"/x.png\"/>'' language) =
     ''<img src=\"/x.png\"/ alt=\"Descriptive text for image\">''
   \<and> map category (fixes (fixAccessibilityWithAI ''<img src=\"/x.png\"/>'' language)) = [Images]"
  by (simp add: fixAccessibility_def eval_defs ai_eval_defs Let_def)

text \<open>
  Claim C2 as stated fails on \<open>fixAccessibility\<close>: for \<^verbatim>\<open><div onClick={() => {}}/>\<close> its output
  has the role and the tabIndex but no keyboard handler.
\<close>

theorem div_scenario_counterexample:
  "code (fixAccessibility ''<div onClick={() => {}}/>'') =
     ''<div tabIndex={0} role=\"button\" onClick={() => {}}/>''
   \<and> includes_str ''onKey'' (code (fixAccessibility ''<div onClick={() => {}}/>'')) = False"
  by (simp add: fixAccessibility_def eval_defs Let_def)

text \<open>
  Claim C2, as the code has it.  For \<^verbatim>\<open><div onClick={() => {}}/>\<close>, \<open>fixAccessibility\<close> inserts
  \<^verbatim>\<open>role="button"\<close> and \<^verbatim>\<open>tabIndex={0}\<close> and records exactly one fix, of category
  InteractiveElements.  The AI service inserts these two and an \<^verbatim>\<open>onKeyDown\<close> handler that clicks
  on the Enter key, and records one InteractiveElements fix followed by one advisory
  KeyboardNavigation record.
\<close>

theorem div_scenario:
  "fixAccessibility ''<div onClick={() => {}}/>'' =
     \<lparr>code = ''<div tabIndex={0} role=\"button\" onClick={() => {}}/>'',
      fixes = [\<lparr>category = InteractiveElements, action = ''Added role and tabIndex'',
        selector = ''div[onClick]'',
        summary = ''Made clickable div keyboard accessible'', line = Some 1\<rparr>],
      hasChanges = True\<rparr>
   \<and> code (fixAccessibilityWithAI ''<div onClick={() => {}}/>'' language) =
     ''<div onKeyDown={(e) => e.key === \"Enter\" && e.currentTarget.click()} tabIndex={0} role=\"button\" onClick={() => {}}/>''
   \<and> map category (fixes (fixAccessibilityWithAI ''<div onClick={() => {}}/>'' language)) =
     [InteractiveElements, KeyboardNavigation]"
  by (simp add: fixAccessibility_def eval_defs ai_eval_defs Let_def)


section \<open>Buttons labelled by another element\<close>

lemma ms_seq_mem:
  "st' \<in> set (ms ic r1 st) \<Longrightarrow> st'' \<in> set (ms ic r2 st') \<Longrightarrow> st'' \<in> set (ms ic (Seq r1 r2) st)"
  by auto

lemma match_many_reaches:
  "list_all (in_class k) w \<Longrightarrow>
   \<exists>p'. (p', cs, n + length w, g) \<in> set (match_many k (p, w @ cs, n, g))
      \<and> (w \<noteq> [] \<longrightarrow> p' = Some (last w)) \<and> (w = [] \<longrightarrow> p' = p)"
proof (induction w arbitrary: p n)
  case Nil
  show ?case by (cases cs) auto
next
  case (Cons c w)
  then obtain p' where "(p', cs, Suc n + length w, g) \<in> set (match_many k (Some c, w @ cs, Suc n, g))"
     and "w \<noteq> [] \<longrightarrow> p' = Some (last w)" and "w = [] \<longrightarrow> p' = Some c"
    by fastforce
  with Cons.prems show ?case by auto
qed


lemma seq_notahead_blocks:
  "ms ic r1 st = [st1] \<Longrightarrow> ms ic la st1 \<noteq> [] \<Longrightarrow> ms ic (Seq r1 (Seq (NotAhead la) r2)) st = []"
  by simp



section \<open>The unlabeled-input rule\<close>

lemma canonicalize_eq_gt: "canonicalize c = CHR ''>'' \<longleftrightarrow> c = CHR ''>''"
  by (cases c) (auto simp: canonicalize_def less_eq_char_def split: if_splits)

lemma canonicalize_eq_slash: "canonicalize c = CHR ''/'' \<longleftrightarrow> c = CHR ''/''"
  by (cases c) (auto simp: canonicalize_def less_eq_char_def split: if_splits)

lemma char_matches_gt: "char_matches True (CHR ''>'') c \<longleftrightarrow> c = CHR ''>''"
  using canonicalize_eq_gt[of c] by (auto simp: char_matches_def canonicalize_def)

lemma char_matches_slash: "char_matches True (CHR ''/'') c \<longleftrightarrow> c = CHR ''/''"
  using canonicalize_eq_slash[of c] by (auto simp: char_matches_def canonicalize_def)

lemma is_space_not_gt: "is_space c \<Longrightarrow> c \<noteq> CHR ''>''"
  by (auto simp: is_space_def)

lemma scan_fst_cong:
  assumes "\<And>m g off. fst (cb m g off) = fst (cb' m g off)"
  shows "fst (replace_scan ic r cb k off prev s) = fst (replace_scan ic r cb' k off prev s)"
proof (induction s arbitrary: k off prev)
  case Nil
  show ?case using assms by (auto split: option.splits)
next
  case (Cons c cs)
  show ?case
  proof (cases "k = 0")
    case False
    then show ?thesis using Cons by simp
  next
    case True
    show ?thesis
    proof (cases "exec_at ic r prev (c # cs)")
      case None
      with True Cons[of 0 "Suc off" "Some c"] show ?thesis by (simp add: case_prod_beta)
    next
      case (Some a)
      obtain m g where a: "a = (m, g)" by (cases a)
      have "fst (cb m g off) = fst (cb' m g off)" by (rule assms)
      with True Some a Cons[of 0 "Suc off" "Some c"] Cons[of "length m - 1" "Suc off" "Some c"]
      show ?thesis using assms by (simp add: case_prod_beta)
    qed
  qed
qed

lemma scan_snd_length:
  assumes "\<And>m g off. length (snd (cb m g off)) = length (snd (cb' m g off))"
  shows "length (snd (replace_scan ic r cb k off prev s)) = length (snd (replace_scan ic r cb' k off prev s))"
proof (induction s arbitrary: k off prev)
  case Nil
  show ?case using assms by (auto split: option.splits)
next
  case (Cons c cs)
  show ?case
  proof (cases "k = 0")
    case False
    then show ?thesis using Cons by simp
  next
    case True
    show ?thesis
    proof (cases "exec_at ic r prev (c # cs)")
      case None
      with True Cons[of 0 "Suc off" "Some c"] show ?thesis by (simp add: case_prod_beta)
    next
      case (Some a)
      obtain m g where a: "a = (m, g)" by (cases a)
      have "length (snd (cb m g off)) = length (snd (cb' m g off))" by (rule assms)
      with True Some a Cons[of 0 "Suc off" "Some c"] Cons[of "length m - 1" "Suc off" "Some c"]
      show ?thesis using assms by (simp add: case_prod_beta)
    qed
  qed
qed

lemma match_lit_sound:
  "st' \<in> set (match_lit ic ps (p, cs, n, g)) \<Longrightarrow>
   \<exists>w p' cs'. cs = w @ cs' \<and> st' = (p', cs', n + length w, g) \<and> list_all2 (char_matches ic) ps w"
proof (induction ps arbitrary: p cs n)
  case Nil
  then show ?case by auto
next
  case (Cons a ps)
  show ?case
  proof (cases cs)
    case Nil
    with Cons.prems show ?thesis by simp
  next
    case (Cons c cs0)
    with Cons.prems have m: "char_matches ic a c"
      and mem: "st' \<in> set (match_lit ic ps (Some c, cs0, Suc n, g))"
      by (auto split: if_splits)
    from Cons.IH[OF mem] obtain w p' cs' where
      "cs0 = w @ cs'" "st' = (p', cs', Suc n + length w, g)" "list_all2 (char_matches ic) ps w"
      by blast
    with m Cons show ?thesis
      by (intro exI[of _ "c # w"] exI[of _ p'] exI[of _ cs']) simp
  qed
qed

lemma match_many_sound:
  "st' \<in> set (match_many k (p, cs, n, g)) \<Longrightarrow>
   \<exists>w p' cs'. cs = w @ cs' \<and> st' = (p', cs', n + length w, g) \<and> list_all (in_class k) w"
proof (induction cs arbitrary: p n)
  case Nil
  then show ?case by auto
next
  case (Cons c cs)
  show ?case
  proof (cases "st' = (p, c # cs, n, g)")
    case True
    then show ?thesis by (intro exI[of _ "[]"]) simp
  next
    case False
    with Cons.prems have c: "in_class k c"
      and mem: "st' \<in> set (match_many k (Some c, cs, Suc n, g))"
      by (auto split: if_splits)
    from Cons.IH[OF mem] obtain w p' cs' where
      "cs = w @ cs'" "st' = (p', cs', Suc n + length w, g)" "list_all (in_class k) w"
      by blast
    with c show ?thesis
      by (intro exI[of _ "c # w"] exI[of _ p'] exI[of _ cs']) simp
  qed
qed

lemma match_many_lazy_sound:
  "st' \<in> set (match_many_lazy k (p, cs, n, g)) \<Longrightarrow>
   \<exists>w p' cs'. cs = w @ cs' \<and> st' = (p', cs', n + length w, g) \<and> list_all (in_class k) w"
proof (induction cs arbitrary: p n)
  case Nil
  then show ?case by auto
next
  case (Cons c cs)
  show ?case
  proof (cases "st' = (p, c # cs, n, g)")
    case True
    then show ?thesis by (intro exI[of _ "[]"]) simp
  next
    case False
    with Cons.prems have c: "in_class k c"
      and mem: "st' \<in> set (match_many_lazy k (Some c, cs, Suc n, g))"
      by (auto split: if_splits)
    from Cons.IH[OF mem] obtain w p' cs' where
      "cs = w @ cs'" "st' = (p', cs', Suc n + length w, g)" "list_all (in_class k) w"
      by blast
    with c show ?thesis
      by (intro exI[of _ "c # w"] exI[of _ p'] exI[of _ cs']) simp
  qed
qed

lemma replace_first_slash_gt:
  "CHR ''>'' \<notin> set u \<Longrightarrow> replace_first ''/>'' r (u @ ''/>'' @ v) = u @ r @ v"
proof (induction u)
  case Nil
  show ?case by simp
next
  case (Cons c u)
  then show ?case by (cases u) auto
qed

lemma replace_first_gt:
  "CHR ''>'' \<notin> set u \<Longrightarrow> replace_first ''>'' r (u @ CHR ''>'' # v) = u @ r @ v"
  by (induction u) auto

lemma canonicalize_gt: "canonicalize (CHR ''>'') = CHR ''>''"
  by (simp add: canonicalize_def)

lemma char_matches_not_gt:
  "char_matches True p c \<Longrightarrow> canonicalize p \<noteq> CHR ''>'' \<Longrightarrow> c \<noteq> CHR ''>''"
  using canonicalize_gt by (auto simp: char_matches_def)

lemma lit_no_gt:
  "list_all2 (char_matches True) ps w \<Longrightarrow> list_all (\<lambda>p. canonicalize p \<noteq> CHR ''>'') ps \<Longrightarrow>
   CHR ''>'' \<notin> set w"
proof (induction rule: list_all2_induct)
  case Nil
  show ?case by simp
next
  case (Cons p ps c w)
  then show ?case using char_matches_not_gt[of p c] by auto
qed


lemma lit_gt: "list_all2 (char_matches True) ''>'' y \<Longrightarrow> y = ''>''"
proof -
  assume "list_all2 (char_matches True) ''>'' y"
  then obtain c where "y = [c]" and "char_matches True (CHR ''>'') c"
    by (cases y) (auto simp: list_all2_Cons1)
  then show ?thesis by (simp add: char_matches_gt)
qed

lemma lit_slash_gt: "list_all2 (char_matches True) ''/>'' x \<Longrightarrow> x = ''/>''"
proof -
  assume "list_all2 (char_matches True) ''/>'' x"
  then obtain c y where "x = c # y" and c: "char_matches True (CHR ''/'') c"
    and y: "list_all2 (char_matches True) ''>'' y"
    by (cases x) auto
  then show ?thesis using lit_gt[OF y] by (simp add: char_matches_slash)
qed

lemma spaces_no_gt: "list_all (in_class CSpace) sp \<Longrightarrow> CHR ''>'' \<notin> set sp"
  using is_space_not_gt by (auto simp: list_all_iff)

lemma notgt_no_gt: "list_all (in_class CNotGt) w \<Longrightarrow> CHR ''>'' \<notin> set w"
  by (auto simp: list_all_iff)

lemma lit_close_input:
  "list_all2 (char_matches True) ''</input>'' z \<Longrightarrow>
   \<exists>z' c. z = z' @ [c, CHR ''>''] \<and> c \<noteq> CHR ''/''"
proof -
  assume "list_all2 (char_matches True) ''</input>'' z"
  then obtain c1 c2 c3 c4 c5 c6 c7 c8 where z: "z = [c1, c2, c3, c4, c5, c6, c7, c8]"
    and c7: "char_matches True (CHR ''t'') c7" and c8: "char_matches True (CHR ''>'') c8"
    by (auto simp: list_all2_Cons1)
  from c8 have "c8 = CHR ''>''" by (simp add: char_matches_gt)
  moreover from c7 have "c7 \<noteq> CHR ''/''"
    by (auto simp: char_matches_def canonicalize_def)
  ultimately show ?thesis using z by (intro exI[of _ "[c1, c2, c3, c4, c5, c6]"] exI[of _ c7]) simp
qed

lemma ms_seq_iff:
  "st'' \<in> set (ms ic (Seq r1 r2) st) \<longleftrightarrow> (\<exists>st'. st' \<in> set (ms ic r1 st) \<and> st'' \<in> set (ms ic r2 st'))"
  by auto

lemma ms_alt_iff:
  "st' \<in> set (ms ic (Alt r1 r2) st) \<longleftrightarrow> st' \<in> set (ms ic r1 st) \<or> st' \<in> set (ms ic r2 st)"
  by simp

lemma ms_notahead_mem: "st' \<in> set (ms ic (NotAhead r) st) \<Longrightarrow> st' = st"
  by (simp split: if_splits)

lemma ms_group_lazy_sound:
  assumes "st' \<in> set (ms ic (Group (ManyLazy k)) (p, cs, n, g))"
  shows "\<exists>w p' cs'. cs = w @ cs' \<and> st' = (p', cs', n + length w, w) \<and> list_all (in_class k) w"
proof -
  from assms obtain x where x: "x \<in> set (match_many_lazy k (p, cs, n, g))"
    and st': "st' = set_group (p, cs, n, g) x"
    by auto
  from match_many_lazy_sound[OF x] obtain w p' cs' where
    "cs = w @ cs'" "x = (p', cs', n + length w, g)" "list_all (in_class k) w"
    by blast
  then show ?thesis unfolding st' by (simp add: set_group_def)
qed

lemma ms_lit_sound:
  "st' \<in> set (ms ic (Lit ps) (p, cs, n, g)) \<Longrightarrow>
   \<exists>w p' cs'. cs = w @ cs' \<and> st' = (p', cs', n + length w, g) \<and> list_all2 (char_matches ic) ps w"
  by (simp only: ms.simps) (rule match_lit_sound)

lemma ms_many_sound:
  "st' \<in> set (ms ic (Many k) (p, cs, n, g)) \<Longrightarrow>
   \<exists>w p' cs'. cs = w @ cs' \<and> st' = (p', cs', n + length w, g) \<and> list_all (in_class k) w"
  by (simp only: ms.simps) (rule match_many_sound)

lemma input_match_parts:
  assumes "exec_at True input_re prev t = Some (m, g)"
  shows "\<exists>w1 u. list_all2 (char_matches True) ''<input'' w1 \<and> CHR ''>'' \<notin> set (w1 @ u) \<and>
     (m = w1 @ u @ ''/>'' \<or> (\<exists>v. m = w1 @ u @ CHR ''>'' # v \<and> \<not> ends_with ''/>'' m))"
proof -
  let ?LA = "seqs [Many CNotGt, WordB, Alt (Lit ''aria-label'') (Lit ''id''), Many CSpace, Lit ''='']"
  let ?A = "Seq (Many CSpace) (Lit ''/>'')"
  let ?B = "Seq (Lit ''>'') (Seq (Many CSpace) (Lit ''</input>''))"
  have re: "input_re = Seq (Lit ''<input'') (Seq (NotAhead ?LA) (Seq (Group (ManyLazy CNotGt)) (Alt ?A ?B)))"
    by (simp add: input_re_def)
  from assms obtain p' cs' n where
    st: "(p', cs', n, g) \<in> set (ms True input_re (prev, t, 0, []))" and m: "m = take n t"
    unfolding exec_at_def by (auto split: list.splits)
  from st[unfolded re ms_seq_iff] obtain st1 st2 st3 where
    s1: "st1 \<in> set (ms True (Lit ''<input'') (prev, t, 0, []))"
    and s2: "st2 \<in> set (ms True (NotAhead ?LA) st1)"
    and s3: "st3 \<in> set (ms True (Group (ManyLazy CNotGt)) st2)"
    and s4: "(p', cs', n, g) \<in> set (ms True (Alt ?A ?B) st3)"
    by blast
  have st2: "st2 = st1" using s2 by (rule ms_notahead_mem)
  from ms_lit_sound[OF s1] obtain w1 p1 cs1 where
    t1: "t = w1 @ cs1" and st1: "st1 = (p1, cs1, length w1, [])"
    and w1: "list_all2 (char_matches True) ''<input'' w1"
    by auto
  have w1gt: "CHR ''>'' \<notin> set w1"
    by (rule lit_no_gt[OF w1]) (simp add: canonicalize_def)
  from ms_group_lazy_sound[OF s3[unfolded st2 st1]] obtain w2 p2 cs2 where
    t2: "cs1 = w2 @ cs2" and st3: "st3 = (p2, cs2, length w1 + length w2, w2)"
    and w2: "list_all (in_class CNotGt) w2"
    by blast
  from s4[unfolded ms_alt_iff] show ?thesis
  proof
    assume "(p', cs', n, g) \<in> set (ms True ?A st3)"
    from this[unfolded ms_seq_iff st3] obtain st4 where
      a1: "st4 \<in> set (ms True (Many CSpace) (p2, cs2, length w1 + length w2, w2))"
      and a2: "(p', cs', n, g) \<in> set (ms True (Lit ''/>'') st4)"
      by blast
    from ms_many_sound[OF a1] obtain sp p3 cs3 where
      t3: "cs2 = sp @ cs3" and st4: "st4 = (p3, cs3, length w1 + length w2 + length sp, w2)"
      and sp: "list_all (in_class CSpace) sp"
      by blast
    from ms_lit_sound[OF a2[unfolded st4]] obtain y where
      t4: "cs3 = y @ cs'" and n: "n = length w1 + length w2 + length sp + length y"
      and y: "list_all2 (char_matches True) ''/>'' y"
      by blast
    from y have y': "y = ''/>''" by (rule lit_slash_gt)
    have "t = ((w1 @ w2 @ sp) @ ''/>'') @ cs'" unfolding t1 t2 t3 t4 y' by simp
    moreover have "n = length ((w1 @ w2 @ sp) @ ''/>'')" unfolding n y' by simp
    ultimately have "m = (w1 @ w2 @ sp) @ ''/>''"
      unfolding m by (metis append_eq_conv_conj)
    then have "m = w1 @ (w2 @ sp) @ ''/>''" by simp
    moreover have "CHR ''>'' \<notin> set (w1 @ (w2 @ sp))"
      using w1gt notgt_no_gt[OF w2] spaces_no_gt[OF sp] by simp
    ultimately show ?thesis using w1 by - (rule exI[of _ w1], rule exI[of _ "w2 @ sp"], simp)
  next
    assume "(p', cs', n, g) \<in> set (ms True ?B st3)"
    from this[unfolded ms_seq_iff st3] obtain st4 st5 where
      b1: "st4 \<in> set (ms True (Lit ''>'') (p2, cs2, length w1 + length w2, w2))"
      and b2: "st5 \<in> set (ms True (Many CSpace) st4)"
      and b3: "(p', cs', n, g) \<in> set (ms True (Lit ''</input>'') st5)"
      by blast
    from ms_lit_sound[OF b1] obtain y p3 cs3 where
      t3: "cs2 = y @ cs3" and st4: "st4 = (p3, cs3, length w1 + length w2 + length y, w2)"
      and y: "list_all2 (char_matches True) ''>'' y"
      by blast
    from y have y': "y = ''>''" by (rule lit_gt)
    from ms_many_sound[OF b2[unfolded st4]] obtain sp p4 cs4 where
      t4: "cs3 = sp @ cs4" and st5: "st5 = (p4, cs4, length w1 + length w2 + length y + length sp, w2)"
      and sp: "list_all (in_class CSpace) sp"
      by blast
    from ms_lit_sound[OF b3[unfolded st5]] obtain z where
      t5: "cs4 = z @ cs'" and n: "n = length w1 + length w2 + length y + length sp + length z"
      and z: "list_all2 (char_matches True) ''</input>'' z"
      by blast
    from lit_close_input[OF z] obtain z' c where z': "z = z' @ [c, CHR ''>'']" and c: "c \<noteq> CHR ''/''"
      by blast
    have "t = ((w1 @ w2) @ CHR ''>'' # (sp @ z)) @ cs'" unfolding t1 t2 t3 t4 t5 y' by simp
    moreover have "n = length ((w1 @ w2) @ CHR ''>'' # (sp @ z))" unfolding n y' by simp
    ultimately have meq: "m = (w1 @ w2) @ CHR ''>'' # (sp @ z)"
      unfolding m by (metis append_eq_conv_conj)
    have "\<not> ends_with ''/>'' m"
      unfolding meq z' using c by (simp add: ends_with_def)
    moreover have "CHR ''>'' \<notin> set (w1 @ w2)"
      using w1gt notgt_no_gt[OF w2] by simp
    moreover have "m = w1 @ w2 @ CHR ''>'' # (sp @ z)" using meq by simp
    ultimately show ?thesis using w1
      by - (rule exI[of _ w1], rule exI[of _ w2], blast)
  qed
qed

lemma input_match_shape:
  assumes "exec_at True input_re prev t = Some (m, g)"
  shows "\<exists>u. CHR ''>'' \<notin> set u \<and>
     (m = u @ ''/>'' \<or> (\<exists>v. m = u @ CHR ''>'' # v \<and> \<not> ends_with ''/>'' m))"
proof -
  from input_match_parts[OF assms] obtain w1 u where
    "CHR ''>'' \<notin> set (w1 @ u)"
    "m = w1 @ u @ ''/>'' \<or> (\<exists>v. m = w1 @ u @ CHR ''>'' # v \<and> \<not> ends_with ''/>'' m)"
    by blast
  then show ?thesis by (intro exI[of _ "w1 @ u"]) simp
qed

lemma label_input_inserts:
  assumes "exec_at True input_re prev t = Some (m, g)"
  shows "\<exists>u v. m = u @ v \<and> CHR ''>'' \<notin> set u \<and>
     ((v = ''/>'' \<and> label_input m = u @ '' aria-label=\"Input\" '' @ v)
      \<or> (hd v = CHR ''>'' \<and> v \<noteq> [] \<and> label_input m = u @ '' aria-label=\"Input\"'' @ v))"
proof -
  from input_match_shape[OF assms] obtain u where u: "CHR ''>'' \<notin> set u"
    and c: "m = u @ ''/>'' \<or> (\<exists>v. m = u @ CHR ''>'' # v \<and> \<not> ends_with ''/>'' m)"
    by blast
  from c show ?thesis
  proof
    assume m: "m = u @ ''/>''"
    have e: "ends_with ''/>'' m" unfolding m by (simp add: ends_with_def)
    have "label_input m = u @ '' aria-label=\"Input\" />'' @ []"
      unfolding label_input_def using e m replace_first_slash_gt[OF u, of _ "[]"] by simp
    with m u show ?thesis by (intro exI[of _ u] exI[of _ "''/>''"]) simp
  next
    assume "\<exists>v. m = u @ CHR ''>'' # v \<and> \<not> ends_with ''/>'' m"
    then obtain v where m: "m = u @ CHR ''>'' # v" and e: "\<not> ends_with ''/>'' m" by blast
    have "label_input m = u @ '' aria-label=\"Input\">'' @ v"
      unfolding label_input_def using e m replace_first_gt[OF u] by simp
    with m u show ?thesis by (intro exI[of _ u] exI[of _ "CHR ''>'' # v"]) simp
  qed
qed


lemma rule_categories:
  "f \<in> set (snd (rule_img s t)) \<Longrightarrow> category f = Images"
  "f \<in> set (snd (rule_button s t)) \<Longrightarrow> category f = InteractiveElements"
  "f \<in> set (snd (rule_link s t)) \<Longrightarrow> category f = Navigation"
  "f \<in> set (snd (rule_div s t)) \<Longrightarrow> category f = InteractiveElements"
  "f \<in> set (snd (rule_input s t)) \<Longrightarrow> category f = Forms"
  unfolding rule_img_def rule_button_def rule_link_def rule_div_def rule_input_def replace_all_def
  by (erule scan_fixes_invariant[rotated];
      auto simp: fix_img_def fix_button_def fix_link_def fix_div_def fix_input_def split: if_splits)+

lemma forms_fixes:
  "filter (\<lambda>f. category f = Forms) (fixes (fixAccessibility s)) = snd (rule_input s (text_before_inputs s))"
proof -
  let ?P = "\<lambda>f. category f = Forms"
  have a: "filter ?P (snd (rule_img s t)) = []" for t
    by (auto simp: filter_empty_conv dest: rule_categories)
  have b: "filter ?P (snd (rule_button s t)) = []" for t
    by (auto simp: filter_empty_conv dest: rule_categories)
  have c: "filter ?P (snd (rule_link s t)) = []" for t
    by (auto simp: filter_empty_conv dest: rule_categories)
  have d: "filter ?P (snd (rule_div s t)) = []" for t
    by (auto simp: filter_empty_conv dest: rule_categories)
  have e: "filter ?P (snd (rule_input s t)) = snd (rule_input s t)" for t
    by (auto simp: filter_id_conv dest: rule_categories)
  show ?thesis
    by (simp add: fixAccessibility_def text_before_inputs_def text_before_divs_def text_before_links_def text_before_buttons_def case_prod_beta a b c d e)
qed

lemma code_after_inputs:
  "code (fixAccessibility s) = trim (fst (rule_input s (text_before_inputs s)))"
  by (simp add: fixAccessibility_def text_before_inputs_def text_before_divs_def text_before_links_def text_before_buttons_def case_prod_beta)

lemma rule_input_labelled:
  "hasAssociatedLabel s \<Longrightarrow> rule_input s t = (t, [])"
proof -
  assume "hasAssociatedLabel s"
  then have "fix_input s m g off = (m, [])" for m g off by (simp add: fix_input_def)
  from scan_identity[of "fix_input s", OF this, of True input_re 0 0 None t]
  show ?thesis by (simp add: rule_input_def replace_all_def)
qed

lemma rule_input_unlabelled:
  assumes "\<not> hasAssociatedLabel s"
  shows "fst (rule_input s t) = fst (replace_all True input_re (\<lambda>m g off. (label_input m, ([] :: unit list))) t)"
    and "map category (snd (rule_input s t)) = replicate (length (match_all True input_re t)) Forms"
proof -
  show "fst (rule_input s t) = fst (replace_all True input_re (\<lambda>m g off. (label_input m, ([] :: unit list))) t)"
    unfolding rule_input_def replace_all_def
    by (rule scan_fst_cong) (simp add: fix_input_def assms)
  have len: "length (snd (rule_input s t)) = length (match_all True input_re t)"
    unfolding rule_input_def replace_all_def match_all_def
    by (rule scan_snd_length) (simp add: fix_input_def assms)
  have "\<forall>f\<in>set (snd (rule_input s t)). category f = Forms"
    by (auto dest: rule_categories)
  then have "map category (snd (rule_input s t)) = replicate (length (snd (rule_input s t))) Forms"
    by (simp add: map_replicate_const[symmetric] cong: map_cong)
  with len show "map category (snd (rule_input s t)) = replicate (length (match_all True input_re t)) Forms"
    by simp
qed


lemma match_lit_single: "match_lit ic ps st = [] \<or> (\<exists>st'. match_lit ic ps st = [st'])"
proof (induction ps arbitrary: st)
  case Nil
  show ?case by (cases st) auto
next
  case (Cons p ps)
  obtain prev cs n g where st: "st = (prev, cs, n, g)" by (cases st) auto
  show ?case unfolding st using Cons[of "(Some (hd cs), tl cs, Suc n, g)"] by (cases cs) auto
qed

lemma lookahead_weaker:
  assumes "ms ic (seqs [Many CNotGt, WordB,
       Alt (Lit ''aria-label'') (Alt (Lit ''id'') (Lit ''aria-labelledby'')), Many CSpace, Lit ''='']) st = []"
  shows "ms ic (seqs [Many CNotGt, WordB, Alt (Lit ''aria-label'') (Lit ''id''), Many CSpace, Lit ''='']) st = []"
proof (rule ccontr)
  assume "ms ic (seqs [Many CNotGt, WordB, Alt (Lit ''aria-label'') (Lit ''id''), Many CSpace, Lit ''='']) st \<noteq> []"
  then have "ms ic (Seq (Many CNotGt) (Seq WordB (Seq (Alt (Lit ''aria-label'') (Lit ''id''))
      (Seq (Many CSpace) (Lit ''=''))))) st \<noteq> []"
    by (simp del: ms.simps)
  then obtain x where "x \<in> set (ms ic (Seq (Many CNotGt) (Seq WordB (Seq (Alt (Lit ''aria-label'') (Lit ''id''))
      (Seq (Many CSpace) (Lit ''=''))))) st)"
    by (metis list.set_intros(1) neq_Nil_conv)
  then obtain s1 s2 s3 s4 where
    "s1 \<in> set (ms ic (Many CNotGt) st)" "s2 \<in> set (ms ic WordB s1)"
    "s3 \<in> set (ms ic (Alt (Lit ''aria-label'') (Lit ''id'')) s2)"
    "s4 \<in> set (ms ic (Many CSpace) s3)" "x \<in> set (ms ic (Lit ''='') s4)"
    unfolding ms_seq_iff by blast
  moreover from this(3) have "s3 \<in> set (ms ic (Alt (Lit ''aria-label'') (Alt (Lit ''id'') (Lit ''aria-labelledby''))) s2)"
    unfolding ms_alt_iff by blast
  ultimately have "x \<in> set (ms ic (Seq (Many CNotGt) (Seq WordB
      (Seq (Alt (Lit ''aria-label'') (Alt (Lit ''id'') (Lit ''aria-labelledby'')))
      (Seq (Many CSpace) (Lit ''=''))))) st)"
    unfolding ms_seq_iff by blast
  with assms show False by (simp del: ms.simps)
qed

lemma ms_seq_notahead:
  "ms ic (Seq r1 (Seq (NotAhead la) r)) st =
     concat (map (\<lambda>st1. if ms ic la st1 = [] then ms ic r st1 else []) (ms ic r1 st))"
proof -
  have a: "ms ic (Seq (NotAhead la) r) = (\<lambda>st1. if ms ic la st1 = [] then ms ic r st1 else [])"
    by (rule ext) simp
  show ?thesis by (simp only: ms.simps(6)[of ic r1] a)
qed

lemma ai_input_match_is_input_match:
  assumes "exec_at True ai_input_re prev t = Some (m, g)"
  shows "exec_at True input_re prev t = Some (m, g)"
proof -
  let ?LA = "seqs [Many CNotGt, WordB, Alt (Lit ''aria-label'') (Lit ''id''), Many CSpace, Lit ''='']"
  let ?LB = "seqs [Many CNotGt, WordB,
       Alt (Lit ''aria-label'') (Alt (Lit ''id'') (Lit ''aria-labelledby'')), Many CSpace, Lit ''='']"
  let ?R = "Seq (Group (ManyLazy CNotGt))
     (Alt (seqs [Many CSpace, Lit ''/>'']) (seqs [Lit ''>'', Many CSpace, Lit ''</input>'']))"
  let ?st = "(prev, t, 0, [])"
  have ra: "input_re = Seq (Lit ''<input'') (Seq (NotAhead ?LA) ?R)"
    by (simp add: input_re_def)
  have rb: "ai_input_re = Seq (Lit ''<input'') (Seq (NotAhead ?LB) ?R)"
    by (simp add: ai_input_re_def)
  have seq: "ms True (Seq (Lit ''<input'') (Seq (NotAhead la) ?R)) ?st =
      concat (map (\<lambda>st1. if ms True la st1 = [] then ms True ?R st1 else []) (match_lit True ''<input'' ?st))"
    for la
    unfolding ms_seq_notahead by (simp only: ms.simps(1))
  from assms have ne: "ms True ai_input_re ?st \<noteq> []"
    by (auto simp: exec_at_def)
  from match_lit_single[of True "''<input''" ?st] show ?thesis
  proof
    assume "match_lit True ''<input'' ?st = []"
    with ne show ?thesis unfolding rb seq by simp
  next
    assume "\<exists>st'. match_lit True ''<input'' ?st = [st']"
    then obtain st1 where l: "match_lit True ''<input'' ?st = [st1]" by blast
    from ne have "ms True ?LB st1 = []"
      unfolding rb seq l by (simp del: ms.simps seqs.simps split: if_splits)
    then have "ms True ?LA st1 = []" by (rule lookahead_weaker)
    then have "ms True input_re ?st = ms True ai_input_re ?st"
      unfolding ra rb seq l using \<open>ms True ?LB st1 = []\<close> by (simp del: ms.simps seqs.simps)
    with assms show ?thesis by (simp add: exec_at_def del: ms.simps)
  qed
qed


text \<open>
  Claim C4, as the code has it.  The inputs the rule acts on are the occurrences of its
  pattern that the fifth pass finds: an \<^verbatim>\<open><input\<close> followed by a stretch without \<^verbatim>\<open>>\<close> that
  ends in \<^verbatim>\<open>/>\<close> or is followed by \<^verbatim>\<open>></input>\<close>, with no \<^verbatim>\<open>aria-label=\<close> and no \<^verbatim>\<open>id=\<close> at a word
  boundary between the \<^verbatim>\<open><input\<close> and the next \<^verbatim>\<open>>\<close>.  \<open>fixAccessibility\<close> does not look at
  \<^verbatim>\<open>aria-labelledby\<close>; every occurrence of the pattern that also requires its absence (the
  pattern of the AI service) is an occurrence of this one (third part).

  If the label pattern \<^verbatim>\<open><label ... for="..."\<close> matches anywhere in the original text, the pass
  leaves every text unchanged and records nothing, and the run has no Forms fix (first and
  fifth parts).  Otherwise the pass replaces each occurrence by its labelled form and records
  exactly one fix per occurrence, each of category Forms (second part); the labelled form of
  an occurrence is the occurrence with \<^verbatim>\<open> aria-label="Input"\<close> inserted before its closing
  \<^verbatim>\<open>/>\<close> or before its first \<^verbatim>\<open>>\<close> (fourth part).  The Forms fixes of a run are those of this
  pass, and the returned code is its trimmed output (fifth and sixth parts).
\<close>

theorem unlabeled_input_rule:
  "(hasAssociatedLabel s \<longrightarrow> rule_input s t = (t, []))
   \<and> (\<not> hasAssociatedLabel s \<longrightarrow>
        fst (rule_input s t) =
          fst (replace_all True input_re (\<lambda>m g off. (label_input m, ([] :: unit list))) t)
        \<and> map category (snd (rule_input s t)) = replicate (length (match_all True input_re t)) Forms)
   \<and> (\<forall>prev u m g. exec_at True ai_input_re prev u = Some (m, g) \<longrightarrow>
          exec_at True input_re prev u = Some (m, g))
   \<and> (\<forall>prev u m g. exec_at True input_re prev u = Some (m, g) \<longrightarrow>
          (\<exists>a b. m = a @ b \<and> CHR ''>'' \<notin> set a \<and>
             ((b = ''/>'' \<and> label_input m = a @ '' aria-label=\"Input\" '' @ b)
              \<or> (hd b = CHR ''>'' \<and> b \<noteq> [] \<and> label_input m = a @ '' aria-label=\"Input\"'' @ b))))
   \<and> filter (\<lambda>f. category f = Forms) (fixes (fixAccessibility s)) =
       snd (rule_input s (text_before_inputs s))
   \<and> code (fixAccessibility s) = trim (fst (rule_input s (text_before_inputs s)))"
proof (intro conjI impI allI)
  show "rule_input s t = (t, [])" if "hasAssociatedLabel s"
    using that by (rule rule_input_labelled)
  show "fst (rule_input s t) =
      fst (replace_all True input_re (\<lambda>m g off. (label_input m, ([] :: unit list))) t)"
    if "\<not> hasAssociatedLabel s"
    using that by (rule rule_input_unlabelled)
  show "map category (snd (rule_input s t)) = replicate (length (match_all True input_re t)) Forms"
    if "\<not> hasAssociatedLabel s"
    using that by (rule rule_input_unlabelled)
  show "exec_at True input_re prev u = Some (m, g)"
    if "exec_at True ai_input_re prev u = Some (m, g)" for prev u m g
    using that by (rule ai_input_match_is_input_match)
  show "\<exists>a b. m = a @ b \<and> CHR ''>'' \<notin> set a \<and>
       ((b = ''/>'' \<and> label_input m = a @ '' aria-label=\"Input\" '' @ b)
        \<or> (hd b = CHR ''>'' \<and> b \<noteq> [] \<and> label_input m = a @ '' aria-label=\"Input\"'' @ b))"
    if "exec_at True input_re prev u = Some (m, g)" for prev u m g
    using that by (rule label_input_inserts)
  show "filter (\<lambda>f. category f = Forms) (fixes (fixAccessibility s)) =
      snd (rule_input s (text_before_inputs s))"
    by (rule forms_fixes)
  show "code (fixAccessibility s) = trim (fst (rule_input s (text_before_inputs s)))"
    by (rule code_after_inputs)
qed

text \<open>
  Claim C4 at a text with a label and an input (nothing changes, no fix) and at a text with a
  self-closed and an explicitly closed input and no label (both labelled, two Forms fixes).
\<close>

theorem unlabeled_input_rule_witness:
  "fixAccessibility ''<label for=\"n\">Name</label> <input type=\"text\" />'' =
     \<lparr>code = ''<label for=\"n\">Name</label> <input type=\"text\" />'', fixes = [], hasChanges = False\<rparr>
   \<and> code (fixAccessibility ''<input type=\"text\" />\<newline><input></input>'') =
       ''<input type=\"text\"  aria-label=\"Input\" />\<newline><input aria-label=\"Input\"></input>''
   \<and> map category (fixes (fixAccessibility ''<input type=\"text\" />\<newline><input></input>'')) =
       [Forms, Forms]"
proof -
  let ?s1 = "''<label for=\"n\">Name</label> <input type=\"text\" />''"
  let ?s2 = "''<input type=\"text\" />\<newline><input></input>''"
  have l1: "hasAssociatedLabel ?s1" by (simp add: eval_defs)
  have t1: "text_before_inputs ?s1 = ?s1" by (simp add: text_before_inputs_def text_before_divs_def text_before_links_def text_before_buttons_def eval_defs)
  have o1: "fixes (fixAccessibility ?s1) = filter (\<lambda>f. category f = Forms) (fixes (fixAccessibility ?s1))"
    by (simp add: fixAccessibility_def eval_defs)
  have tr1: "trim ?s1 = ?s1" by (simp add: trim_def is_space_def)
  from unlabeled_input_rule[of ?s1 ?s1] l1 t1
  have r1: "rule_input ?s1 ?s1 = (?s1, [])"
    and f1: "filter (\<lambda>f. category f = Forms) (fixes (fixAccessibility ?s1)) = snd (rule_input ?s1 ?s1)"
    and c1: "code (fixAccessibility ?s1) = trim (fst (rule_input ?s1 ?s1))"
    by simp_all
  have a: "fixAccessibility ?s1 = \<lparr>code = ?s1, fixes = [], hasChanges = False\<rparr>"
    using o1 f1 c1 hasChanges_fixAccessibility[of ?s1]
    unfolding r1 fst_conv snd_conv tr1 by (cases "fixAccessibility ?s1") simp
  have l2: "\<not> hasAssociatedLabel ?s2" by (simp add: eval_defs)
  have t2: "text_before_inputs ?s2 = ?s2" by (simp add: text_before_inputs_def text_before_divs_def text_before_links_def text_before_buttons_def eval_defs)
  have o2: "fixes (fixAccessibility ?s2) = filter (\<lambda>f. category f = Forms) (fixes (fixAccessibility ?s2))"
    by (simp add: fixAccessibility_def eval_defs)
  have m2: "length (match_all True input_re ?s2) = 2" by (simp add: eval_defs)
  have p2: "fst (replace_all True input_re (\<lambda>m g off. (label_input m, ([] :: unit list))) ?s2) =
      ''<input type=\"text\"  aria-label=\"Input\" />\<newline><input aria-label=\"Input\"></input>''"
    by (simp add: eval_defs)
  have tr2: "trim ''<input type=\"text\"  aria-label=\"Input\" />\<newline><input aria-label=\"Input\"></input>'' =
      ''<input type=\"text\"  aria-label=\"Input\" />\<newline><input aria-label=\"Input\"></input>''"
    by (simp add: trim_def is_space_def)
  from unlabeled_input_rule[of ?s2 ?s2] l2 t2
  have r2: "fst (rule_input ?s2 ?s2) =
        fst (replace_all True input_re (\<lambda>m g off. (label_input m, ([] :: unit list))) ?s2)"
    and k2: "map category (snd (rule_input ?s2 ?s2)) = replicate (length (match_all True input_re ?s2)) Forms"
    and f2: "filter (\<lambda>f. category f = Forms) (fixes (fixAccessibility ?s2)) = snd (rule_input ?s2 ?s2)"
    and c2: "code (fixAccessibility ?s2) = trim (fst (rule_input ?s2 ?s2))"
    by simp_all
  have b: "code (fixAccessibility ?s2) =
      ''<input type=\"text\"  aria-label=\"Input\" />\<newline><input aria-label=\"Input\"></input>''"
    unfolding c2 r2 p2 tr2 ..
  have c: "map category (fixes (fixAccessibility ?s2)) = [Forms, Forms]"
    using o2 f2 k2 m2 by (simp add: numeral_2_eq_2)
  from a b c show ?thesis by simp
qed

text \<open>
  Claim C4 as stated fails: \<^verbatim>\<open><input data-id="1" />\<close> and \<^verbatim>\<open><input onChange={() => x} />\<close> are
  self-closed inputs without \<^verbatim>\<open>aria-label\<close>, \<^verbatim>\<open>id\<close> or \<^verbatim>\<open>aria-labelledby\<close> in texts without a
  label, yet nothing is inserted and no fix is recorded: the \<^verbatim>\<open>id\<close> lookahead fires at the
  word boundary inside \<^verbatim>\<open>data-id=\<close>, and the attribute stretch cannot pass the \<^verbatim>\<open>>\<close> of the
  arrow.
\<close>

theorem unlabeled_input_counterexample:
  "hasAssociatedLabel ''<input data-id=\"1\" />'' = False
   \<and> fixAccessibility ''<input data-id=\"1\" />'' =
       \<lparr>code = ''<input data-id=\"1\" />'', fixes = [], hasChanges = False\<rparr>
   \<and> hasAssociatedLabel ''<input onChange={() => x} />'' = False
   \<and> fixAccessibility ''<input onChange={() => x} />'' =
       \<lparr>code = ''<input onChange={() => x} />'', fixes = [], hasChanges = False\<rparr>"
  by (simp add: fixAccessibility_def eval_defs)

section \<open>A fixed element is not matched again\<close>

lemma char_matches_refl: "char_matches ic c c"
  by (simp add: char_matches_def)

lemma match_lit_complete:
  "list_all2 (char_matches ic) ps w \<Longrightarrow>
   match_lit ic ps (p, w @ cs, n, g) = [(if w = [] then p else Some (last w), cs, n + length w, g)]"
proof (induction arbitrary: p n rule: list_all2_induct)
  case Nil
  show ?case by simp
next
  case (Cons a ps c w)
  from Cons.IH[of "Some c" "Suc n"] Cons.hyps(1) show ?case by simp
qed

lemma match_lit_self:
  "match_lit ic ps (p, ps @ cs, n, g) = [(if ps = [] then p else Some (last ps), cs, n + length ps, g)]"
  by (rule match_lit_complete) (simp add: list_all2_same char_matches_refl)

lemma lookahead_found:
  assumes w: "list_all (in_class CNotGt) w" "w \<noteq> []" "\<not> is_word_char (last w)"
    and c: "is_word_char c"
    and name: "(p3, CHR ''='' # rest, n3, g) \<in> set (ms ic rn (Some (last w), c # cs, n + length w, g))"
  shows "ms ic (Seq (Many CNotGt) (Seq WordB (Seq rn (Seq (Many CSpace) (Lit ''=''))))) (p, w @ c # cs, n, g) \<noteq> []"
proof -
  from match_many_reaches[OF w(1), of "c # cs" n g p] w(2)
  have s1: "(Some (last w), c # cs, n + length w, g) \<in> set (ms ic (Many CNotGt) (p, w @ c # cs, n, g))"
    by auto
  have s2: "(Some (last w), c # cs, n + length w, g) \<in> set (ms ic WordB (Some (last w), c # cs, n + length w, g))"
    using w(3) c by (simp add: at_word_boundary_def)
  have s4: "(p3, CHR ''='' # rest, n3, g) \<in> set (ms ic (Many CSpace) (p3, CHR ''='' # rest, n3, g))"
    by (simp add: is_space_def)
  have s5: "(Some (CHR ''=''), rest, Suc n3, g) \<in> set (ms ic (Lit ''='') (p3, CHR ''='' # rest, n3, g))"
    by (simp add: char_matches_refl)
  note m = ms_seq_mem[OF s1 ms_seq_mem[OF s2 ms_seq_mem[OF name ms_seq_mem[OF s4 s5]]]]
  then show ?thesis by (metis empty_iff empty_set)
qed

lemma replacement_blocked:
  assumes lit: "ms ic (Lit tag) (p, txt, 0, []) = [(p1, w @ c # cs, n1, [])]"
    and w: "list_all (in_class CNotGt) w" "w \<noteq> []" "\<not> is_word_char (last w)"
    and c: "is_word_char c"
    and name: "(p3, CHR ''='' # rest, n3, []) \<in> set (ms ic rn (Some (last w), c # cs, n1 + length w, []))"
  shows "exec_at ic (Seq (Lit tag)
      (Seq (NotAhead (Seq (Many CNotGt) (Seq WordB (Seq rn (Seq (Many CSpace) (Lit ''='')))))) R)) p txt = None"
proof -
  have "ms ic (Seq (Lit tag)
      (Seq (NotAhead (Seq (Many CNotGt) (Seq WordB (Seq rn (Seq (Many CSpace) (Lit ''='')))))) R)) (p, txt, 0, []) = []"
    by (rule seq_notahead_blocks[OF lit lookahead_found[OF w c name]])
  then show ?thesis by (simp add: exec_at_def del: ms.simps)
qed

lemma starts_with_append: "starts_with p s \<Longrightarrow> \<exists>s'. s = p @ s'"
  by (induction p s rule: starts_with.induct) auto

lemma starts_with_self: "starts_with p (p @ s)"
  by (induction p) auto

lemma replace_first_head: "p \<noteq> [] \<Longrightarrow> replace_first p r (p @ s') = r @ s'"
  using starts_with_self[of p s'] by (cases p) (auto simp del: starts_with.simps)


lemma img_group_no_gt:
  assumes "exec_at True img_re prev t = Some (m, g)"
  shows "CHR ''>'' \<notin> set g"
proof -
  let ?LA = "seqs [Many CNotGt, WordB, Lit ''alt'', Many CSpace, Lit ''='']"
  have re: "img_re = Seq (Lit ''<img'') (Seq (NotAhead ?LA) (Seq (Group (ManyLazy CNotGt)) (Lit ''>'')))"
    by (simp add: img_re_def)
  from assms obtain p' cs' n where
    st: "(p', cs', n, g) \<in> set (ms True img_re (prev, t, 0, []))"
    unfolding exec_at_def by (auto split: list.splits)
  from st[unfolded re ms_seq_iff] obtain st1 st2 st3 where
    s1: "st1 \<in> set (ms True (Lit ''<img'') (prev, t, 0, []))"
    and s2: "st2 \<in> set (ms True (NotAhead ?LA) st1)"
    and s3: "st3 \<in> set (ms True (Group (ManyLazy CNotGt)) st2)"
    and s4: "(p', cs', n, g) \<in> set (ms True (Lit ''>'') st3)"
    by blast
  have st2: "st2 = st1" using s2 by (rule ms_notahead_mem)
  from ms_lit_sound[OF s1] obtain w1 :: string and p1 cs1 where st1: "st1 = (p1, cs1, length w1, [])"
    by auto
  from ms_group_lazy_sound[OF s3[unfolded st2 st1]] obtain w2 p2 cs2 where
    st3: "st3 = (p2, cs2, length w1 + length w2, w2)" and w2: "list_all (in_class CNotGt) w2"
    by blast
  from ms_lit_sound[OF s4[unfolded st3]] have "g = w2" by auto
  with notgt_no_gt[OF w2] show ?thesis by simp
qed

lemma img_replacement_blocked:
  assumes "exec_at True img_re prev t = Some (m, g)"
  shows "exec_at True img_re p (fst (fix_img s m g off) @ rest) = None"
proof -
  let ?w = "g @ '' ''"
  let ?cs = "''lt=\"\">'' @ rest"
  have re: "img_re = Seq (Lit ''<img'') (Seq (NotAhead (Seq (Many CNotGt) (Seq WordB (Seq (Lit ''alt'')
      (Seq (Many CSpace) (Lit ''='')))))) (Seq (Group (ManyLazy CNotGt)) (Lit ''>'')))"
    by (simp add: img_re_def)
  have tx: "fst (fix_img s m g off) @ rest = ''<img'' @ ?w @ CHR ''a'' # ?cs"
    by (simp add: fix_img_def)
  have lit: "ms True (Lit ''<img'') (p, ''<img'' @ ?w @ CHR ''a'' # ?cs, 0, []) =
      [(Some (CHR ''g''), ?w @ CHR ''a'' # ?cs, 4, [])]"
    by (simp add: char_matches_refl)
  have w: "list_all (in_class CNotGt) ?w" "?w \<noteq> []" "\<not> is_word_char (last ?w)"
    using img_group_no_gt[OF assms] by (auto simp: list_all_iff is_word_char_def)
  have c: "is_word_char (CHR ''a'')" by (simp add: is_word_char_def)
  have name: "(Some (CHR ''t''), CHR ''='' # (''\"\">'' @ rest), 4 + length ?w + 3, [])
      \<in> set (ms True (Lit ''alt'') (Some (last ?w), CHR ''a'' # ?cs, 4 + length ?w, []))"
    by (simp add: char_matches_refl)
  show ?thesis unfolding tx re by (rule replacement_blocked[OF lit w c name])
qed


lemma button_replacement_blocked:
  assumes "starts_with ''<button'' m"
  shows "exec_at True button_re p (fst (fix_button s m g off) @ rest) = None"
proof -
  from starts_with_append[OF assms] obtain m' where m: "m = ''<button'' @ m'" by blast
  let ?w = "'' ''"
  let ?cs = "''ria-label=\"Button\"'' @ m' @ rest"
  have re: "button_re = Seq (Lit ''<button'') (Seq (NotAhead (Seq (Many CNotGt) (Seq WordB
      (Seq (Lit ''aria-label'') (Seq (Many CSpace) (Lit ''='')))))) (seqs [Group (ManyLazy CNotGt), Lit ''>'',
      Many CSpace, Lit ''<svg'', Many CNotGt, Lit ''>'', ManyLazy CDotAll, Lit ''</svg>'', Many CSpace,
      Lit ''</button>'']))"
    by (simp add: button_re_def)
  have "fst (fix_button s m g off) = ''<button aria-label=\"Button\"'' @ m'"
    unfolding fix_button_def fst_conv m by (rule replace_first_head) simp
  then have tx: "fst (fix_button s m g off) @ rest = ''<button'' @ ?w @ CHR ''a'' # ?cs"
    by simp
  have lit: "ms True (Lit ''<button'') (p, ''<button'' @ ?w @ CHR ''a'' # ?cs, 0, []) =
      [(Some (CHR ''n''), ?w @ CHR ''a'' # ?cs, 7, [])]"
    by (simp add: char_matches_refl)
  have w: "list_all (in_class CNotGt) ?w" "?w \<noteq> []" "\<not> is_word_char (last ?w)"
    by (simp_all add: is_word_char_def)
  have c: "is_word_char (CHR ''a'')" by (simp add: is_word_char_def)
  have name: "(Some (CHR ''l''), CHR ''='' # (''\"Button\"'' @ m' @ rest), 7 + length ?w + 10, [])
      \<in> set (ms True (Lit ''aria-label'') (Some (last ?w), CHR ''a'' # ?cs, 7 + length ?w, []))"
    by (simp add: char_matches_refl)
  show ?thesis unfolding tx re by (rule replacement_blocked[OF lit w c name])
qed

lemma link_replacement_blocked:
  assumes "starts_with ''<a'' m" and "textContent m = []"
  shows "exec_at True link_re p (fst (fix_link s m g off) @ rest) = None"
proof -
  from starts_with_append[OF assms(1)] obtain m' where m: "m = ''<a'' @ m'" by blast
  let ?w = "'' ''"
  let ?cs = "''ria-label=\"Link\"'' @ m' @ rest"
  have re: "link_re = Seq (Lit ''<a'') (Seq (NotAhead (Seq (Many CNotGt) (Seq WordB
      (Seq (Lit ''aria-label'') (Seq (Many CSpace) (Lit ''='')))))) (seqs [Group (ManyLazy CNotGt), Lit ''>'',
      Many CSpace, Rep (seqs [Lit ''<'', Many CNotGt, Lit ''>'']), Many CSpace, Lit ''</a>'']))"
    by (simp add: link_re_def)
  have "replace_first ''<a'' ''<a aria-label=\"Link\"'' (''<a'' @ m') = ''<a aria-label=\"Link\"'' @ m'"
    by (rule replace_first_head) simp
  then have "fst (fix_link s m g off) = ''<a aria-label=\"Link\"'' @ m'"
    using assms(2) unfolding fix_link_def m[symmetric] by (simp add: m)
  then have tx: "fst (fix_link s m g off) @ rest = ''<a'' @ ?w @ CHR ''a'' # ?cs"
    by simp
  have lit: "ms True (Lit ''<a'') (p, ''<a'' @ ?w @ CHR ''a'' # ?cs, 0, []) =
      [(Some (CHR ''a''), ?w @ CHR ''a'' # ?cs, 2, [])]"
    by (simp add: char_matches_refl)
  have w: "list_all (in_class CNotGt) ?w" "?w \<noteq> []" "\<not> is_word_char (last ?w)"
    by (simp_all add: is_word_char_def)
  have c: "is_word_char (CHR ''a'')" by (simp add: is_word_char_def)
  have name: "(Some (CHR ''l''), CHR ''='' # (''\"Link\"'' @ m' @ rest), 2 + length ?w + 10, [])
      \<in> set (ms True (Lit ''aria-label'') (Some (last ?w), CHR ''a'' # ?cs, 2 + length ?w, []))"
    by (simp add: char_matches_refl)
  show ?thesis unfolding tx re by (rule replacement_blocked[OF lit w c name])
qed

lemma div_replacement_blocked:
  assumes "starts_with ''<div'' m" and "\<not> includes_str ''role='' m"
  shows "exec_at True div_re p (fst (fix_div s m g off) @ rest) = None"
proof -
  from starts_with_append[OF assms(1)] obtain m' where m: "m = ''<div'' @ m'" by blast
  have re: "div_re = Seq (Lit ''<div'') (Seq (NotAhead (Seq (Many CNotGt) (Seq WordB
      (Seq (Lit ''role'') (Seq (Many CSpace) (Lit ''='')))))) (seqs [Group (ManyLazy CNotGt), Lit ''onClick'',
      Many CSpace, Lit ''='', Many CSpace, ManyLazy CNotGt, Lit ''>'']))"
    by (simp add: div_re_def)
  let ?r1 = "''<div role=\"button\"'' @ m'"
  have r1: "replace_first ''<div'' ''<div role=\"button\"'' m = ?r1"
    unfolding m by (rule replace_first_head) simp
  have r2: "replace_first ''<div'' ''<div tabIndex={0}'' (''<div'' @ '' role=\"button\"'' @ m')
      = ''<div tabIndex={0}'' @ '' role=\"button\"'' @ m'"
    by (rule replace_first_head) simp
  have c: "is_word_char (CHR ''r'')" by (simp add: is_word_char_def)
  show ?thesis
  proof (cases "includes_str ''tabIndex'' ?r1")
    case True
    let ?w = "'' ''"
    let ?cs = "''ole=\"button\"'' @ m' @ rest"
    have "fst (fix_div s m g off) = ?r1"
      using assms(2) True by (simp add: fix_div_def div_replacement_def Let_def r1 del: includes_str.simps)
    then have tx: "fst (fix_div s m g off) @ rest = ''<div'' @ ?w @ CHR ''r'' # ?cs" by simp
    have lit: "ms True (Lit ''<div'') (p, ''<div'' @ ?w @ CHR ''r'' # ?cs, 0, []) =
        [(Some (CHR ''v''), ?w @ CHR ''r'' # ?cs, 4, [])]"
      by (simp add: char_matches_refl)
    have w: "list_all (in_class CNotGt) ?w" "?w \<noteq> []" "\<not> is_word_char (last ?w)"
      by (simp_all add: is_word_char_def)
    have name: "(Some (CHR ''e''), CHR ''='' # (''\"button\"'' @ m' @ rest), 4 + length ?w + 4, [])
        \<in> set (ms True (Lit ''role'') (Some (last ?w), CHR ''r'' # ?cs, 4 + length ?w, []))"
      by (simp add: char_matches_refl)
    show ?thesis unfolding tx re by (rule replacement_blocked[OF lit w c name])
  next
    case False
    let ?w = "'' tabIndex={0} ''"
    let ?cs = "''ole=\"button\"'' @ m' @ rest"
    have "fst (fix_div s m g off) = ''<div tabIndex={0}'' @ '' role=\"button\"'' @ m'"
      using assms(2) False r2 by (simp add: fix_div_def div_replacement_def Let_def r1 del: includes_str.simps replace_first.simps)
    then have tx: "fst (fix_div s m g off) @ rest = ''<div'' @ ?w @ CHR ''r'' # ?cs" by simp
    have lit: "ms True (Lit ''<div'') (p, ''<div'' @ ?w @ CHR ''r'' # ?cs, 0, []) =
        [(Some (CHR ''v''), ?w @ CHR ''r'' # ?cs, 4, [])]"
      by (simp add: char_matches_refl)
    have w: "list_all (in_class CNotGt) ?w" "?w \<noteq> []" "\<not> is_word_char (last ?w)"
      by (simp_all add: is_word_char_def)
    have name: "(Some (CHR ''e''), CHR ''='' # (''\"button\"'' @ m' @ rest), 4 + length ?w + 4, [])
        \<in> set (ms True (Lit ''role'') (Some (last ?w), CHR ''r'' # ?cs, 4 + length ?w, []))"
      by (simp add: char_matches_refl)
    show ?thesis unfolding tx re by (rule replacement_blocked[OF lit w c name])
  qed
qed


lemma input_replacement_blocked:
  assumes "exec_at True input_re prev t = Some (m, g)" and "\<not> hasAssociatedLabel s"
  shows "exec_at True input_re p (fst (fix_input s m g off) @ rest) = None"
proof -
  have re: "input_re = Seq (Lit ''<input'') (Seq (NotAhead (Seq (Many CNotGt) (Seq WordB
      (Seq (Alt (Lit ''aria-label'') (Lit ''id'')) (Seq (Many CSpace) (Lit ''='')))))) (seqs [Group (ManyLazy CNotGt),
      Alt (seqs [Many CSpace, Lit ''/>'']) (seqs [Lit ''>'', Many CSpace, Lit ''</input>''])]))"
    by (simp add: input_re_def)
  from input_match_parts[OF assms(1)] obtain w1 u where
    w1: "list_all2 (char_matches True) ''<input'' w1" and gt: "CHR ''>'' \<notin> set (w1 @ u)"
    and sh: "m = w1 @ u @ ''/>'' \<or> (\<exists>v. m = w1 @ u @ CHR ''>'' # v \<and> \<not> ends_with ''/>'' m)"
    by blast
  have "\<exists>tl. label_input m = (w1 @ u) @ '' aria-label=\"Input\"'' @ tl"
  proof -
    from sh show ?thesis
    proof
      assume m: "m = w1 @ u @ ''/>''"
      then have m': "m = (w1 @ u) @ ''/>'' @ []" by simp
      have e: "ends_with ''/>'' m" unfolding m by (simp add: ends_with_def)
      have "label_input m = (w1 @ u) @ '' aria-label=\"Input\" />'' @ []"
        unfolding label_input_def using e by (simp only: if_True) (subst m', rule replace_first_slash_gt[OF gt])
      then show ?thesis by simp
    next
      assume "\<exists>v. m = w1 @ u @ CHR ''>'' # v \<and> \<not> ends_with ''/>'' m"
      then obtain v where m: "m = (w1 @ u) @ CHR ''>'' # v" and e: "\<not> ends_with ''/>'' m" by auto
      have "label_input m = (w1 @ u) @ '' aria-label=\"Input\">'' @ v"
        unfolding label_input_def using e by (simp only: if_False) (subst m, rule replace_first_gt[OF gt])
      then show ?thesis by simp
    qed
  qed
  then obtain tl where li: "label_input m = (w1 @ u) @ '' aria-label=\"Input\"'' @ tl" by blast
  let ?w = "u @ '' ''"
  let ?cs = "''ria-label=\"Input\"'' @ tl @ rest"
  have tx: "fst (fix_input s m g off) @ rest = w1 @ ?w @ CHR ''a'' # ?cs"
    using assms(2) li by (simp add: fix_input_def)
  have "w1 \<noteq> []" using w1 by auto
  then have lit: "ms True (Lit ''<input'') (p, w1 @ ?w @ CHR ''a'' # ?cs, 0, []) =
      [(Some (last w1), ?w @ CHR ''a'' # ?cs, 0 + length w1, [])]"
    unfolding ms.simps using match_lit_complete[OF w1, of p "?w @ CHR ''a'' # ?cs" 0 "[]"] by simp
  have w: "list_all (in_class CNotGt) ?w" "?w \<noteq> []" "\<not> is_word_char (last ?w)"
    using gt by (auto simp: list_all_iff is_word_char_def)
  have c: "is_word_char (CHR ''a'')" by (simp add: is_word_char_def)
  have name: "(Some (CHR ''l''), CHR ''='' # (''\"Input\"'' @ tl @ rest), 0 + length w1 + length ?w + 10, [])
      \<in> set (ms True (Alt (Lit ''aria-label'') (Lit ''id'')) (Some (last ?w), CHR ''a'' # ?cs, 0 + length w1 + length ?w, []))"
    by (simp add: char_matches_def canonicalize_def)
  show ?thesis unfolding tx re by (rule replacement_blocked[OF lit w c name])
qed

text \<open>
  The callbacks of the button, link and container rules insert with a case-sensitive string
  replace after a case-insensitive match: for an upper-case tag nothing is inserted although a
  fix is recorded, and the element is matched again by every later run.
\<close>

lemma uppercase_link_recorded_again:
  "fixAccessibility ''<A href=\"#\"></A>'' =
     \<lparr>code = ''<A href=\"#\"></A>'',
      fixes = [\<lparr>category = Navigation, action = ''Added aria-label'', selector = ''a[href]'',
        summary = ''Added aria-label for link without text content'', line = Some 1\<rparr>],
      hasChanges = True\<rparr>"
  by (simp add: fixAccessibility_def eval_defs)

text \<open>
  Claim C3, as the code has it.  For each of the five rules, whenever the callback records a
  fix for a match, the text it returns is not matched by the rule's pattern again, whatever
  precedes and follows it: the attribute it inserted makes the negative lookahead fail.  For
  the button, link and container rules this is for a match that begins with the lower-case tag
  name the callback's string replace looks for, and for the container rule for a match without
  \<^verbatim>\<open>role=\<close> (otherwise no role is inserted).  So a later run records no fix at an element that
  an earlier run has labelled.
\<close>

theorem fixed_element_not_rematched:
  "(exec_at True img_re prev t = Some (m, g) \<longrightarrow>
      exec_at True img_re p (fst (fix_img s m g off) @ rest) = None)
   \<and> (starts_with ''<button'' m \<longrightarrow>
      exec_at True button_re p (fst (fix_button s m g off) @ rest) = None)
   \<and> (starts_with ''<a'' m \<and> snd (fix_link s m g off) \<noteq> [] \<longrightarrow>
      exec_at True link_re p (fst (fix_link s m g off) @ rest) = None)
   \<and> (starts_with ''<div'' m \<and> \<not> includes_str ''role='' m \<longrightarrow>
      exec_at True div_re p (fst (fix_div s m g off) @ rest) = None)
   \<and> (exec_at True input_re prev t = Some (m, g) \<and> snd (fix_input s m g off) \<noteq> [] \<longrightarrow>
      exec_at True input_re p (fst (fix_input s m g off) @ rest) = None)"
proof (intro conjI impI)
  show "exec_at True img_re p (fst (fix_img s m g off) @ rest) = None"
    if "exec_at True img_re prev t = Some (m, g)"
    using that by (rule img_replacement_blocked)
  show "exec_at True button_re p (fst (fix_button s m g off) @ rest) = None"
    if "starts_with ''<button'' m"
    using that by (rule button_replacement_blocked)
  show "exec_at True link_re p (fst (fix_link s m g off) @ rest) = None"
    if "starts_with ''<a'' m \<and> snd (fix_link s m g off) \<noteq> []"
  proof -
    from that have "textContent m = []" by (simp add: fix_link_def split: if_splits)
    with that show ?thesis by (intro link_replacement_blocked) simp_all
  qed
  show "exec_at True div_re p (fst (fix_div s m g off) @ rest) = None"
    if "starts_with ''<div'' m \<and> \<not> includes_str ''role='' m"
    using that by (intro div_replacement_blocked) simp_all
  show "exec_at True input_re p (fst (fix_input s m g off) @ rest) = None"
    if "exec_at True input_re prev t = Some (m, g) \<and> snd (fix_input s m g off) \<noteq> []"
  proof -
    from that have "\<not> hasAssociatedLabel s" by (simp add: fix_input_def split: if_splits)
    with that show ?thesis by (intro input_replacement_blocked[of prev t]) simp_all
  qed
qed

text \<open>
  Claim C3 at the five texts that trigger one rule each: the pattern of the rule does not match
  the rewritten element.
\<close>

theorem fixed_element_not_rematched_witness:
  "exec_at True img_re None ''<img src=\"/x.png\"/ alt=\"\">'' = None
   \<and> exec_at True button_re None ''<button aria-label=\"Button\"><svg></svg></button>'' = None
   \<and> exec_at True link_re None ''<a aria-label=\"Link\" href=\"#\"></a>'' = None
   \<and> exec_at True div_re None ''<div tabIndex={0} role=\"button\" onClick={() => {}}/>'' = None
   \<and> exec_at True input_re None ''<input  aria-label=\"Input\" />'' = None"
proof -
  have i1: "exec_at True img_re None ''<img src=\"/x.png\"/>'' =
      Some (''<img src=\"/x.png\"/>'', '' src=\"/x.png\"/'')"
    by (simp add: eval_defs)
  have i2: "fst (fix_img s ''<img src=\"/x.png\"/>'' '' src=\"/x.png\"/'' 0) @ [] =
      ''<img src=\"/x.png\"/ alt=\"\">''" for s
    by (simp add: fix_img_def)
  from fixed_element_not_rematched[where prev=None and t="''<img src=\"/x.png\"/>''"
      and m="''<img src=\"/x.png\"/>''" and g="'' src=\"/x.png\"/''" and p=None and off=0 and rest="[]"
      and s="[]"] i1
  have a: "exec_at True img_re None ''<img src=\"/x.png\"/ alt=\"\">'' = None"
    unfolding i2 by blast
  have b2: "fst (fix_button s ''<button><svg></svg></button>'' [] 0) @ [] =
      ''<button aria-label=\"Button\"><svg></svg></button>''" for s
    by (simp add: fix_button_def)
  have b1: "starts_with ''<button'' ''<button><svg></svg></button>''" by simp
  from fixed_element_not_rematched[where m="''<button><svg></svg></button>''" and g="[]" and p=None
      and off=0 and rest="[]" and s="[]"] b1
  have b: "exec_at True button_re None ''<button aria-label=\"Button\"><svg></svg></button>'' = None"
    unfolding b2 by blast
  have l1: "starts_with ''<a'' ''<a href=\"#\"></a>'' \<and> snd (fix_link [] ''<a href=\"#\"></a>'' '' href=\"#\"'' 0) \<noteq> []"
    by (simp add: fix_link_def eval_defs)
  have l2: "fst (fix_link [] ''<a href=\"#\"></a>'' '' href=\"#\"'' 0) @ [] = ''<a aria-label=\"Link\" href=\"#\"></a>''"
    by (simp add: fix_link_def eval_defs)
  from fixed_element_not_rematched[where m="''<a href=\"#\"></a>''" and g="'' href=\"#\"''" and p=None
      and off=0 and rest="[]" and s="[]"] l1
  have c: "exec_at True link_re None ''<a aria-label=\"Link\" href=\"#\"></a>'' = None"
    unfolding l2 by blast
  have d1: "starts_with ''<div'' ''<div onClick={() =>'' \<and> \<not> includes_str ''role='' ''<div onClick={() =>''"
    by simp
  have d2: "fst (fix_div [] ''<div onClick={() =>'' '' '' 0) @ '' {}}/>'' =
      ''<div tabIndex={0} role=\"button\" onClick={() => {}}/>''"
    by (simp add: fix_div_def div_replacement_def Let_def)
  from fixed_element_not_rematched[where m="''<div onClick={() =>''" and g="'' ''" and p=None
      and off=0 and rest="'' {}}/>''" and s="[]"] d1
  have d: "exec_at True div_re None ''<div tabIndex={0} role=\"button\" onClick={() => {}}/>'' = None"
    unfolding d2 by blast
  have n1: "exec_at True input_re None ''<input />'' = Some (''<input />'', [])
      \<and> snd (fix_input ''<input />'' ''<input />'' [] 0) \<noteq> []"
    by (simp add: fix_input_def eval_defs)
  have n2: "fst (fix_input ''<input />'' ''<input />'' [] 0) @ [] = ''<input  aria-label=\"Input\" />''"
    by (simp add: fix_input_def eval_defs)
  from fixed_element_not_rematched[where prev=None and t="''<input />''" and m="''<input />''" and g="[]"
      and p=None and off=0 and rest="[]" and s="''<input />''"] n1
  have e: "exec_at True input_re None ''<input  aria-label=\"Input\" />'' = None"
    unfolding n2 by blast
  from a b c d e show ?thesis by (intro conjI)
qed

end
